theory Spec2Isabelle
  imports Main
begin

section \<open>The single-producer / single-consumer queue \<^verbatim>\<open>lockfree::spsc_queue\<close>\<close>

text \<open>
  The queue is a singly linked chain of heap nodes with four pointers into it. The
  embedding keeps the pointers: a node lives at an address of an explicit memory, and
  every operation of the class is a function on the state made of the four members, the
  allocator, the memory of the nodes and a trace of the effects the collaborators see.
  Operations are taken one at a time (each call runs to its end before the next starts),
  so the development speaks about the sequential behaviour of the code.
\<close>

subsection \<open>Nodes, memory, errors\<close>

type_synonym addr = nat

text \<open>A \<^verbatim>\<open>node_type*\<close>: \<open>None\<close> is \<^verbatim>\<open>nullptr\<close>.\<close>

type_synonym ptr = "addr option"

text \<open>
  \<^verbatim>\<open>struct node_type { T data; std::atomic<node_type*> next; }\<close>. The storage of
  \<open>data\<close> holds a live \<open>T\<close> only between a construct and a destroy, so it is an
  option: \<open>None\<close> is storage without a live object.
\<close>

record 'a node_type =
  data :: "'a option"
  "next" :: ptr

text \<open>
  What can stop an operation. \<open>bad_alloc\<close> is the allocator failing, \<open>ctor_throw\<close> is the
  constructor of \<open>T\<close> throwing, \<open>fn_throw\<close> is the function given to \<open>consume_all\<close>
  throwing. \<open>undefined_behaviour\<close> marks what C++ leaves undefined: reading through a
  null or dangling pointer, freeing storage twice, destroying or moving from storage that
  holds no live object.
\<close>

datatype error = bad_alloc | ctor_throw | fn_throw | undefined_behaviour

text \<open>
  The effects recorded in program order: the calls to the allocator that create or end
  storage and objects, the stores to \<open>before_head_\<close>, and the calls of the user function
  of \<open>consume_all\<close> (with the node whose value it receives). \<open>Construct x\<close> records a
  value built in the node \<open>x\<close>: a constructor that throws builds nothing and leaves no
  event. The line numbers in this file are those of the source file that holds the test
  and the header.
\<close>

datatype event =
    Allocate addr
  | Deallocate addr
  | Construct addr
  | Destroy addr
  | StoreBeforeHead addr
  | Invoke addr

text \<open>
  Modelled from the spec: the allocator, a collaborator outside the sources
  (\<^verbatim>\<open>std::allocator\<close> by default, reached through \<^verbatim>\<open>std::allocator_traits\<close>). The
  spec gives its interface (\<^verbatim>\<open>allocate(1)\<close>, \<^verbatim>\<open>deallocate(node, 1)\<close>,
  \<^verbatim>\<open>construct(slot, args...)\<close>, \<^verbatim>\<open>destroy(slot)\<close>) and says that an allocation can
  fail. Here it hands out addresses never used before, \<open>avail\<close> is the number of nodes it
  can still provide, and a deallocation gives one back.
\<close>

record allocator =
  next_addr :: addr
  avail :: nat

text \<open>
  The members of the class, under their names without the trailing underscore
  (\<^verbatim>\<open>cache_head_and_alloc_\<close> is the pair of \<open>cache_head\<close> and \<open>alloc\<close>). Only
  \<open>cache_head\<close> is ever assigned a pointer that has not been dereferenced or tested before
  (line 285 stores \<^verbatim>\<open>x->next\<close> into it), so it is the one member typed as a nullable
  pointer. \<open>memory\<close> is the storage of the nodes and \<open>trace\<close> the recorded effects.
\<close>

record 'a spsc_queue =
  tail :: addr
  before_head :: addr
  cache_tail :: addr
  cache_head :: ptr
  alloc :: allocator
  memory :: "addr \<rightharpoonup> 'a node_type"
  trace :: "event list"

subsection \<open>Allocator traits and atomic accesses\<close>

text \<open>\<^verbatim>\<open>node_alloc_traits::allocate(alloc_(), 1)\<close>: raw storage, nothing constructed.\<close>

definition allocate :: "'a spsc_queue \<Rightarrow> error + addr \<times> 'a spsc_queue" where
  "allocate q =
     (if avail (alloc q) = 0 then Inl bad_alloc
      else let a = next_addr (alloc q) in
        Inr (a, q\<lparr>alloc := \<lparr>next_addr = Suc a, avail = avail (alloc q) - 1\<rparr>,
                  memory := (memory q)(a \<mapsto> \<lparr>data = None, next = None\<rparr>),
                  trace := trace q @ [Allocate a]\<rparr>))"

text \<open>\<^verbatim>\<open>node_alloc_traits::deallocate(alloc_(), x, 1)\<close>.\<close>

definition deallocate :: "addr \<Rightarrow> 'a spsc_queue \<Rightarrow> error + 'a spsc_queue" where
  "deallocate x q =
     (case memory q x of
        None \<Rightarrow> Inl undefined_behaviour
      | Some n \<Rightarrow>
          Inr (q\<lparr>alloc := (alloc q)\<lparr>avail := Suc (avail (alloc q))\<rparr>,
                 memory := (memory q)(x := None),
                 trace := trace q @ [Deallocate x]\<rparr>))"

text \<open>
  \<^verbatim>\<open>node_alloc_traits::construct(alloc_(), std::addressof(x->data), args...)\<close>. The
  arguments are modelled by what the constructor of \<open>T\<close> does with them: \<open>Some v\<close> when
  it builds the value \<open>v\<close>, \<open>None\<close> when it throws.
\<close>

definition construct_data :: "addr \<Rightarrow> 'a option \<Rightarrow> 'a spsc_queue \<Rightarrow> error + 'a spsc_queue" where
  "construct_data x args q =
     (case memory q x of
        None \<Rightarrow> Inl undefined_behaviour
      | Some n \<Rightarrow>
          (case args of
             None \<Rightarrow> Inl ctor_throw
           | Some v \<Rightarrow>
               Inr (q\<lparr>memory := (memory q)(x \<mapsto> n\<lparr>data := Some v\<rparr>),
                      trace := trace q @ [Construct x]\<rparr>)))"

text \<open>\<^verbatim>\<open>node_alloc_traits::destroy(alloc_(), std::addressof(x->data))\<close>.\<close>

definition destroy :: "addr \<Rightarrow> 'a spsc_queue \<Rightarrow> error + 'a spsc_queue" where
  "destroy x q =
     (case memory q x of
        None \<Rightarrow> Inl undefined_behaviour
      | Some n \<Rightarrow>
          (case data n of
             None \<Rightarrow> Inl undefined_behaviour
           | Some v \<Rightarrow>
               Inr (q\<lparr>memory := (memory q)(x \<mapsto> n\<lparr>data := None\<rparr>),
                      trace := trace q @ [Destroy x]\<rparr>)))"

text \<open>
  \<^verbatim>\<open>x->next.store(p, order)\<close>, and also the construction of the \<open>next\<close> member at
  lines 99 and 299, which writes the same field.
\<close>

definition store_next :: "addr \<Rightarrow> ptr \<Rightarrow> 'a spsc_queue \<Rightarrow> error + 'a spsc_queue" where
  "store_next x p q =
     (case memory q x of
        None \<Rightarrow> Inl undefined_behaviour
      | Some n \<Rightarrow> Inr (q\<lparr>memory := (memory q)(x \<mapsto> n\<lparr>next := p\<rparr>)\<rparr>))"

text \<open>\<^verbatim>\<open>x->next.load(order)\<close>.\<close>

definition load_next :: "addr \<Rightarrow> 'a spsc_queue \<Rightarrow> error + ptr" where
  "load_next x q =
     (case memory q x of None \<Rightarrow> Inl undefined_behaviour | Some n \<Rightarrow> Inr (next n))"

text \<open>Reading the live value \<^verbatim>\<open>x->data\<close>.\<close>

definition load_data :: "addr \<Rightarrow> 'a spsc_queue \<Rightarrow> error + 'a" where
  "load_data x q =
     (case memory q x of
        None \<Rightarrow> Inl undefined_behaviour
      | Some n \<Rightarrow> (case data n of None \<Rightarrow> Inl undefined_behaviour | Some v \<Rightarrow> Inr v))"

text \<open>\<^verbatim>\<open>before_head_.store(x, std::memory_order_release)\<close>.\<close>

definition store_before_head :: "addr \<Rightarrow> 'a spsc_queue \<Rightarrow> 'a spsc_queue" where
  "store_before_head x q = q\<lparr>before_head := x, trace := trace q @ [StoreBeforeHead x]\<rparr>"

subsection \<open>Private helpers (lines 251--302)\<close>

text \<open>
  \<^verbatim>\<open>advance_(node_type*& x)\<close> returns the old \<open>x\<close> and moves \<open>x\<close> to \<^verbatim>\<open>x->next\<close>;
  the result is the pair of the returned pointer and the new value of the reference.
\<close>

definition advance :: "ptr \<Rightarrow> 'a spsc_queue \<Rightarrow> error + addr \<times> ptr" where
  "advance x q =
     (case x of
        None \<Rightarrow> Inl undefined_behaviour
      | Some a \<Rightarrow> (case load_next a q of Inl e \<Rightarrow> Inl e | Inr nx \<Rightarrow> Inr (a, nx)))"

text \<open>\<^verbatim>\<open>head_()\<close>: the front node, \<^verbatim>\<open>before_head_->next\<close>.\<close>

definition head :: "'a spsc_queue \<Rightarrow> error + ptr" where
  "head q = load_next (before_head q) q"

text \<open>
  \<^verbatim>\<open>make_node_(args...)\<close>. The result is the node or the exception, with the state
  the call leaves behind in both cases. The handler of lines 294--297 catches C++
  exceptions only.
\<close>

definition make_node :: "'a option \<Rightarrow> 'a spsc_queue \<Rightarrow> (error + addr) \<times> 'a spsc_queue" where
  "make_node args q0 =
     (let x = cache_head q0;
          q1 = (if Some (cache_tail q0) = x then q0\<lparr>cache_tail := before_head q0\<rparr> else q0)
      in
        if Some (cache_tail q1) \<noteq> x then
          (case x of
             None \<Rightarrow> (Inl undefined_behaviour, q1)
           | Some a \<Rightarrow>
               (case construct_data a args q1 of
                  Inl e \<Rightarrow> (Inl e, q1)
                | Inr q2 \<Rightarrow>
                    (case advance (cache_head q2) q2 of
                       Inl e \<Rightarrow> (Inl e, q2)
                     | Inr (_, nx) \<Rightarrow>
                         (let q3 = q2\<lparr>cache_head := nx\<rparr> in
                            case store_next a None q3 of
                              Inl e \<Rightarrow> (Inl e, q3)
                            | Inr q4 \<Rightarrow> (Inr a, q4)))))
        else
          (case allocate q1 of
             Inl e \<Rightarrow> (Inl e, q1)
           | Inr (a, q2) \<Rightarrow>
               (case construct_data a args q2 of
                  Inl e \<Rightarrow>
                    (if e = undefined_behaviour then (Inl e, q2)
                     else case deallocate a q2 of
                            Inl e' \<Rightarrow> (Inl e', q2)
                          | Inr q3 \<Rightarrow> (Inl e, q3))
                | Inr q3 \<Rightarrow>
                    (case store_next a None q3 of
                       Inl e \<Rightarrow> (Inl e, q3)
                     | Inr q4 \<Rightarrow> (Inr a, q4)))))"

subsection \<open>Construction and destruction (lines 93--133)\<close>

text \<open>
  The constructor allocates the sentinel from the allocator it is given, constructs its
  \<open>next\<close> as null and leaves its \<open>data\<close> raw.
\<close>

definition spsc_queue_ctor :: "allocator \<Rightarrow> error + 'a spsc_queue" where
  "spsc_queue_ctor a =
     (if avail a = 0 then Inl bad_alloc
      else let t = next_addr a in
        Inr \<lparr>tail = t, before_head = t, cache_tail = t, cache_head = Some t,
             alloc = \<lparr>next_addr = Suc t, avail = avail a - 1\<rparr>,
             memory = [t \<mapsto> \<lparr>data = None, next = None\<rparr>],
             trace = [Allocate t]\<rparr>)"

text \<open>
  The loop of lines 122--125: deallocate from \<open>first\<close> until \<open>cache_end\<close>. A loop over
  pointers may not end, so it is a partial function: \<open>None\<close> is a run that never returns.
\<close>

partial_function (option) dealloc_cached ::
  "ptr \<Rightarrow> ptr \<Rightarrow> 'a spsc_queue \<Rightarrow> ((error + ptr) \<times> 'a spsc_queue) option" where
  "dealloc_cached cache_end first q =
     (if first \<noteq> cache_end then
        (case advance first q of
           Inl e \<Rightarrow> Some (Inl e, q)
         | Inr (x, nx) \<Rightarrow>
             (case deallocate x q of
                Inl e \<Rightarrow> Some (Inl e, q)
              | Inr q1 \<Rightarrow> dealloc_cached cache_end nx q1))
      else Some (Inr first, q))"

text \<open>
  The loop of lines 128--132, and the same loop at lines 176--180 in the handler of the
  range push: destroy the data of each node and deallocate it, until the null pointer.
\<close>

partial_function (option) destroy_chain ::
  "ptr \<Rightarrow> 'a spsc_queue \<Rightarrow> ((error + unit) \<times> 'a spsc_queue) option" where
  "destroy_chain first q =
     (if first \<noteq> None then
        (case advance first q of
           Inl e \<Rightarrow> Some (Inl e, q)
         | Inr (x, nx) \<Rightarrow>
             (case destroy x q of
                Inl e \<Rightarrow> Some (Inl e, q)
              | Inr q1 \<Rightarrow>
                  (case deallocate x q1 of
                     Inl e \<Rightarrow> Some (Inl e, q1)
                   | Inr q2 \<Rightarrow> destroy_chain nx q2)))
      else Some (Inr (), q))"

definition spsc_queue_dtor :: "'a spsc_queue \<Rightarrow> ((error + unit) \<times> 'a spsc_queue) option" where
  "spsc_queue_dtor q =
     (case head q of
        Inl e \<Rightarrow> Some (Inl e, q)
      | Inr cache_end \<Rightarrow>
          (case dealloc_cached cache_end (cache_head q) q of
             None \<Rightarrow> None
           | Some (Inl e, q1) \<Rightarrow> Some (Inl e, q1)
           | Some (Inr first, q1) \<Rightarrow> destroy_chain first q1))"

subsection \<open>Producer functions (lines 140--186)\<close>

definition emplace :: "'a option \<Rightarrow> 'a spsc_queue \<Rightarrow> (error + unit) \<times> 'a spsc_queue" where
  "emplace args q =
     (case make_node args q of
        (Inl e, q1) \<Rightarrow> (Inl e, q1)
      | (Inr x, q1) \<Rightarrow>
          (case store_next (tail q1) (Some x) q1 of
             Inl e \<Rightarrow> (Inl e, q1)
           | Inr q2 \<Rightarrow> (Inr (), q2\<lparr>tail := x\<rparr>)))"

text \<open>
  Both overloads of \<^verbatim>\<open>push(v)\<close> forward to \<open>emplace\<close>. \<open>push v\<close> is the call whose copy or
  move constructor builds \<open>v\<close>; a push whose copy constructor throws is \<open>emplace None\<close>.
\<close>

definition push :: "'a \<Rightarrow> 'a spsc_queue \<Rightarrow> (error + unit) \<times> 'a spsc_queue" where
  "push v q = emplace (Some v) q"

text \<open>
  The loop of lines 169--173 over the rest of the range, one constructor outcome per
  element; the result is the last node of the private chain.
\<close>

fun stage :: "'a option list \<Rightarrow> addr \<Rightarrow> 'a spsc_queue \<Rightarrow> (error + addr) \<times> 'a spsc_queue" where
  "stage [] insert_tail q = (Inr insert_tail, q)"
| "stage (v # vs) insert_tail q =
     (case make_node v q of
        (Inl e, q1) \<Rightarrow> (Inl e, q1)
      | (Inr x, q1) \<Rightarrow>
          (case store_next insert_tail (Some x) q1 of
             Inl e \<Rightarrow> (Inl e, q1)
           | Inr q2 \<Rightarrow> stage vs x q2))"

text \<open>
  \<^verbatim>\<open>push(first, last)\<close>: the range is the list of its elements. The first
  \<open>make_node\<close> is outside the \<^verbatim>\<open>try\<close>; the handler releases the private chain and
  rethrows.
\<close>

definition push_range ::
  "'a option list \<Rightarrow> 'a spsc_queue \<Rightarrow> ((error + unit) \<times> 'a spsc_queue) option" where
  "push_range vs q =
     (case vs of
        [] \<Rightarrow> Some (Inr (), q)
      | v # rest \<Rightarrow>
          (case make_node v q of
             (Inl e, q1) \<Rightarrow> Some (Inl e, q1)
           | (Inr insert_head, q1) \<Rightarrow>
               (case stage rest insert_head q1 of
                  (Inl e, q2) \<Rightarrow>
                    (if e = undefined_behaviour then Some (Inl e, q2)
                     else case destroy_chain (Some insert_head) q2 of
                            None \<Rightarrow> None
                          | Some (Inl e', q3) \<Rightarrow> Some (Inl e', q3)
                          | Some (Inr u, q3) \<Rightarrow> Some (Inl e, q3))
                | (Inr insert_tail, q2) \<Rightarrow>
                    (case store_next (tail q2) (Some insert_head) q2 of
                       Inl e \<Rightarrow> Some (Inl e, q2)
                     | Inr q3 \<Rightarrow> Some (Inr (), q3\<lparr>tail := insert_tail\<rparr>)))))"

subsection \<open>Consumer functions (lines 193--242)\<close>

text \<open>The loop of lines 196--199; the result is the final \<open>last\<close> (written \<open>last'\<close>).\<close>

partial_function (option) clear_loop ::
  "addr \<Rightarrow> 'a spsc_queue \<Rightarrow> ((error + addr) \<times> 'a spsc_queue) option" where
  "clear_loop last' q =
     (case load_next last' q of
        Inl e \<Rightarrow> Some (Inl e, q)
      | Inr None \<Rightarrow> Some (Inr last', q)
      | Inr (Some x) \<Rightarrow>
          (case destroy x q of
             Inl e \<Rightarrow> Some (Inl e, q)
           | Inr q1 \<Rightarrow> clear_loop x q1))"

definition clear :: "'a spsc_queue \<Rightarrow> ((error + unit) \<times> 'a spsc_queue) option" where
  "clear q =
     (case clear_loop (before_head q) q of
        None \<Rightarrow> None
      | Some (Inl e, q1) \<Rightarrow> Some (Inl e, q1)
      | Some (Inr last', q1) \<Rightarrow> Some (Inr (), store_before_head last' q1))"

text \<open>
  \<^verbatim>\<open>pop(out)\<close>: the out-parameter is passed in and handed back. Move assignment of
  \<open>T\<close> is the copy of the value.
\<close>

definition pop :: "'a \<Rightarrow> 'a spsc_queue \<Rightarrow> (error + bool) \<times> 'a \<times> 'a spsc_queue" where
  "pop out q =
     (case head q of
        Inl e \<Rightarrow> (Inl e, out, q)
      | Inr None \<Rightarrow> (Inr False, out, q)
      | Inr (Some x) \<Rightarrow>
          (case load_data x q of
             Inl e \<Rightarrow> (Inl e, out, q)
           | Inr v \<Rightarrow>
               (case destroy x q of
                  Inl e \<Rightarrow> (Inl e, v, q)
                | Inr q1 \<Rightarrow> (Inr True, v, store_before_head x q1))))"

text \<open>\<^verbatim>\<open>front()\<close>: the address of the front node's data, or null.\<close>

definition front :: "'a spsc_queue \<Rightarrow> error + ptr" where
  "front q = head q"

definition empty :: "'a spsc_queue \<Rightarrow> error + bool" where
  "empty q = (case head q of Inl e \<Rightarrow> Inl e | Inr x \<Rightarrow> Inr (x = None))"

text \<open>
  \<^verbatim>\<open>consume_all(f)\<close>. The user function works on a state of its own: \<open>f v u\<close> is
  the state after the call on the value \<open>v\<close>, or \<open>None\<close> when the call throws. The loop
  of lines 236--241 starts at \<open>head\<close>.
\<close>

partial_function (option) consume_loop ::
  "('a \<Rightarrow> 'u \<Rightarrow> 'u option) \<Rightarrow> ptr \<Rightarrow> 'u \<Rightarrow> 'a spsc_queue
     \<Rightarrow> ((error + unit) \<times> 'u \<times> 'a spsc_queue) option" where
  "consume_loop f x u q =
     (case x of
        None \<Rightarrow> Some (Inr (), u, q)
      | Some a \<Rightarrow>
          (case load_data a q of
             Inl e \<Rightarrow> Some (Inl e, u, q)
           | Inr v \<Rightarrow>
               (let q1 = q\<lparr>trace := trace q @ [Invoke a]\<rparr> in
                  case f v u of
                    None \<Rightarrow> Some (Inl fn_throw, u, q1)
                  | Some u1 \<Rightarrow>
                      (case destroy a q1 of
                         Inl e \<Rightarrow> Some (Inl e, u1, q1)
                       | Inr q2 \<Rightarrow>
                           (let q3 = store_before_head a q2 in
                              case load_next a q3 of
                                Inl e \<Rightarrow> Some (Inl e, u1, q3)
                              | Inr nx \<Rightarrow> consume_loop f nx u1 q3)))))"

definition consume_all ::
  "('a \<Rightarrow> 'u \<Rightarrow> 'u option) \<Rightarrow> 'u \<Rightarrow> 'a spsc_queue
     \<Rightarrow> ((error + unit) \<times> 'u \<times> 'a spsc_queue) option" where
  "consume_all f u q =
     (case head q of
        Inl e \<Rightarrow> Some (Inl e, u, q)
      | Inr x \<Rightarrow> consume_loop f x u q)"

section \<open>Notions used to state and prove the properties\<close>

subsection \<open>Reading the trace\<close>

text \<open>
  The addresses of the events of one kind, in the order they happened. The number of
  allocations is \<open>length (allocated tr)\<close>, and so on.
\<close>

definition allocated :: "event list \<Rightarrow> addr list" where
  "allocated tr = [a. Allocate a \<leftarrow> tr]"

definition deallocated :: "event list \<Rightarrow> addr list" where
  "deallocated tr = [a. Deallocate a \<leftarrow> tr]"

definition constructed :: "event list \<Rightarrow> addr list" where
  "constructed tr = [a. Construct a \<leftarrow> tr]"

definition destroyed :: "event list \<Rightarrow> addr list" where
  "destroyed tr = [a. Destroy a \<leftarrow> tr]"

definition stored :: "event list \<Rightarrow> addr list" where
  "stored tr = [a. StoreBeforeHead a \<leftarrow> tr]"

text \<open>
  What the loop of lines 128--132 (and 176--180) records for a list of nodes: each node is
  destroyed, then deallocated.
\<close>

definition release_events :: "addr list \<Rightarrow> event list" where
  "release_events zs = concat (map (\<lambda>x. [Destroy x, Deallocate x]) zs)"

text \<open>
  What the loop of \<open>consume_all\<close> records for a list of nodes it drains.
\<close>

definition consume_events :: "addr list \<Rightarrow> event list" where
  "consume_events ds = concat (map (\<lambda>x. [Invoke x, Destroy x, StoreBeforeHead x]) ds)"

subsection \<open>Chains of nodes\<close>

text \<open>
  \<open>path m p as q\<close>: following \<open>next\<close> from the pointer \<open>p\<close> visits exactly the allocated nodes
  \<open>as\<close>, in this order, and arrives at the pointer \<open>q\<close>.
\<close>

fun path :: "(addr \<rightharpoonup> 'a node_type) \<Rightarrow> ptr \<Rightarrow> addr list \<Rightarrow> ptr \<Rightarrow> bool" where
  "path m p [] q = (p = q)"
| "path m p (a # as) q =
     (p = Some a \<and> (case m a of None \<Rightarrow> False | Some n \<Rightarrow> path m (next n) as q))"

text \<open>
  A node whose \<open>data\<close> holds a constructed value that has not been destroyed.
\<close>

definition live :: "(addr \<rightharpoonup> 'a node_type) \<Rightarrow> addr \<Rightarrow> bool" where
  "live m a = (case m a of None \<Rightarrow> False | Some n \<Rightarrow> data n \<noteq> None)"

text \<open>
  The value a node holds, if it is allocated and live.
\<close>

definition data_of :: "(addr \<rightharpoonup> 'a node_type) \<Rightarrow> addr \<Rightarrow> 'a option" where
  "data_of m a = (case m a of None \<Rightarrow> None | Some n \<Rightarrow> data n)"

subsection \<open>A sequential producer and a sequential consumer\<close>

text \<open>
  The two loops of the test \<^verbatim>\<open>push_and_pop\<close>: push the values of a list one after the
  other, stopping at the first exception, and pop until \<open>pop\<close> returns false, collecting
  what the out-parameter received.
\<close>

fun push_all :: "'a list \<Rightarrow> 'a spsc_queue \<Rightarrow> (error + unit) \<times> 'a spsc_queue" where
  "push_all [] q = (Inr (), q)"
| "push_all (v # vs) q =
     (case push v q of
        (Inl e, q1) \<Rightarrow> (Inl e, q1)
      | (Inr u, q1) \<Rightarrow> push_all vs q1)"

partial_function (option) pop_until_empty ::
  "'a list \<Rightarrow> 'a \<Rightarrow> 'a spsc_queue \<Rightarrow> ((error + 'a list) \<times> 'a \<times> 'a spsc_queue) option" where
  "pop_until_empty received out q =
     (case pop out q of
        (Inl e, out1, q1) \<Rightarrow> Some (Inl e, out1, q1)
      | (Inr b, out1, q1) \<Rightarrow>
          (if b then pop_until_empty (received @ [out1]) out1 q1
           else Some (Inr received, out1, q1)))"

subsection \<open>Reachable states\<close>

text \<open>
  The states a queue can be in between two calls: the state the constructor leaves, and
  the state any member function leaves when called in a reachable state, whether it
  returns or throws. The function given to \<open>consume_all\<close> keeps a list of values as its own
  state, which lets it throw at any point of any run.
\<close>

inductive reachable :: "'a spsc_queue \<Rightarrow> bool" where
  r_ctor: "spsc_queue_ctor a = Inr q \<Longrightarrow> reachable q"
| r_emplace: "reachable q \<Longrightarrow> emplace args q = (r, q') \<Longrightarrow> reachable q'"
| r_push_range: "reachable q \<Longrightarrow> push_range vs q = Some (r, q') \<Longrightarrow> reachable q'"
| r_pop: "reachable q \<Longrightarrow> pop out q = (rb, out', q') \<Longrightarrow> reachable q'"
| r_clear: "reachable q \<Longrightarrow> clear q = Some (r, q') \<Longrightarrow> reachable q'"
| r_consume_all:
    "reachable q \<Longrightarrow> consume_all f (u :: 'a list) q = Some (r, u', q') \<Longrightarrow> reachable q'"

subsection \<open>The layout of the chain\<close>

text \<open>
  The shape every reachable state has. The whole memory is one chain from \<open>cache_head\<close> to
  the null pointer: the cached nodes \<open>xs\<close> (from \<open>cache_head\<close> up to \<open>cache_tail\<close>), the
  nodes \<open>ys\<close> the consumer has released since (from \<open>cache_tail\<close> up to the sentinel), the
  sentinel \<open>b\<close>, and the live nodes \<open>ls\<close>, the last of which is \<open>tail\<close>. The nodes \<open>ss\<close> are
  allocated and live but not linked into the chain: the nodes \<open>make_node\<close> has handed out
  and the caller has not published yet. The two equations count the nodes against the
  allocator calls and the live values against the constructor calls of the trace. The
  sentinel is a parameter: inside \<open>clear\<close> the member \<open>before_head\<close> lags behind it.
\<close>

definition layout ::
  "'a spsc_queue \<Rightarrow> addr list \<Rightarrow> addr list \<Rightarrow> addr \<Rightarrow> addr list \<Rightarrow> addr list \<Rightarrow> bool" where
  "layout q xs ys b ls ss =
     (path (memory q) (cache_head q) (xs @ ys @ b # ls) None \<and>
      distinct (xs @ ys @ b # ls @ ss) \<and>
      dom (memory q) = set (xs @ ys @ b # ls @ ss) \<and>
      cache_tail q = hd (ys @ [b]) \<and>
      tail q = last (b # ls) \<and>
      (\<forall>a \<in> set (xs @ ys @ [b]). \<not> live (memory q) a) \<and>
      (\<forall>a \<in> set (ls @ ss). live (memory q) a) \<and>
      (\<forall>a \<in> dom (memory q). a < next_addr (alloc q)) \<and>
      length (allocated (trace q)) =
        length (deallocated (trace q)) + length (xs @ ys @ b # ls @ ss) \<and>
      length (constructed (trace q)) = length (destroyed (trace q)) + length (ls @ ss))"

text \<open>
  Lines 277--279: the producer's snapshot \<open>cache_tail\<close> after it has been compared with
  \<open>cache_head\<close>.
\<close>

definition refill :: "'a spsc_queue \<Rightarrow> 'a spsc_queue" where
  "refill q =
     q\<lparr>cache_tail := (if Some (cache_tail q) = cache_head q then before_head q
                      else cache_tail q)\<rparr>"

text \<open>
  The state after the loop of lines 128--132 has run over the nodes \<open>xs\<close>.
\<close>

fun release_all :: "addr list \<Rightarrow> 'a spsc_queue \<Rightarrow> 'a spsc_queue" where
  "release_all [] q = q"
| "release_all (x # xs) q =
     release_all xs (q\<lparr>alloc := (alloc q)\<lparr>avail := Suc (avail (alloc q))\<rparr>,
                       memory := (memory q)(x := None),
                       trace := trace q @ [Destroy x, Deallocate x]\<rparr>)"

text \<open>
  The state after the loop of lines 122--125 has run over the nodes \<open>xs\<close>.
\<close>

fun dealloc_all :: "addr list \<Rightarrow> 'a spsc_queue \<Rightarrow> 'a spsc_queue" where
  "dealloc_all [] q = q"
| "dealloc_all (x # xs) q =
     dealloc_all xs (q\<lparr>alloc := (alloc q)\<lparr>avail := Suc (avail (alloc q))\<rparr>,
                       memory := (memory q)(x := None),
                       trace := trace q @ [Deallocate x]\<rparr>)"

subsection \<open>Concrete runs\<close>

text \<open>
  A queue of numbers built from an allocator with room for four nodes: after the
  constructor, after \<open>push 7\<close>, after \<open>push 8\<close>, after one \<open>pop\<close>. They are the inputs the
  theorems below are instantiated at.
\<close>

definition fresh_queue :: "nat spsc_queue" where
  "fresh_queue =
     \<lparr>tail = 0, before_head = 0, cache_tail = 0, cache_head = Some 0,
      alloc = \<lparr>next_addr = 1, avail = 3\<rparr>,
      memory = [0 \<mapsto> \<lparr>data = None, next = None\<rparr>],
      trace = [Allocate 0]\<rparr>"

definition one_pushed :: "nat spsc_queue" where
  "one_pushed = snd (push 7 fresh_queue)"

definition two_pushed :: "nat spsc_queue" where
  "two_pushed = snd (push 8 one_pushed)"

definition one_popped :: "nat spsc_queue" where
  "one_popped = snd (snd (pop 0 two_pushed))"

text \<open>
  A user function for \<open>consume_all\<close> that appends each value to a list and never throws.
\<close>

definition collect :: "nat \<Rightarrow> nat list \<Rightarrow> nat list option" where
  "collect v u = Some (u @ [v])"

text \<open>
  The state \<open>consume_all collect\<close> leaves when called after the two pushes.
\<close>

definition two_consumed :: "nat spsc_queue" where
  "two_consumed =
     \<lparr>tail = 2, before_head = 2, cache_tail = 0, cache_head = Some 0,
      alloc = \<lparr>next_addr = 3, avail = 1\<rparr>,
      memory = [0 \<mapsto> \<lparr>data = None, next = Some 1\<rparr>, 1 \<mapsto> \<lparr>data = None, next = Some 2\<rparr>,
                2 \<mapsto> \<lparr>data = None, next = None\<rparr>],
      trace = [Allocate 0, Allocate 1, Construct 1, Allocate 2, Construct 2,
               Invoke 1, Destroy 1, StoreBeforeHead 1, Invoke 2, Destroy 2, StoreBeforeHead 2]\<rparr>"

text \<open>
  The state a range push of two elements leaves when it is called after the pop and the
  constructor of the second element throws.
\<close>

definition range_failed :: "nat spsc_queue" where
  "range_failed =
     \<lparr>tail = 2, before_head = 1, cache_tail = 1, cache_head = Some 1,
      alloc = \<lparr>next_addr = 4, avail = 2\<rparr>,
      memory = [1 \<mapsto> \<lparr>data = None, next = Some 2\<rparr>, 2 \<mapsto> \<lparr>data = Some 8, next = None\<rparr>],
      trace = [Allocate 0, Allocate 1, Construct 1, Allocate 2, Construct 2, Destroy 1,
               StoreBeforeHead 1, Construct 0, Allocate 3, Deallocate 3, Destroy 0, Deallocate 0]\<rparr>"

section \<open>Properties\<close>

subsection \<open>Traces and paths\<close>

lemma allocated_simps [simp]:
  "allocated [] = []" "allocated (xs @ ys) = allocated xs @ allocated ys"
  "allocated (Allocate a # xs) = a # allocated xs"
  "allocated (Deallocate a # xs) = allocated xs"
  "allocated (Construct a # xs) = allocated xs"
  "allocated (Destroy a # xs) = allocated xs"
  "allocated (StoreBeforeHead a # xs) = allocated xs"
  "allocated (Invoke a # xs) = allocated xs"
  by (simp_all add: allocated_def)

lemma deallocated_simps [simp]:
  "deallocated [] = []" "deallocated (xs @ ys) = deallocated xs @ deallocated ys"
  "deallocated (Allocate a # xs) = deallocated xs"
  "deallocated (Deallocate a # xs) = a # deallocated xs"
  "deallocated (Construct a # xs) = deallocated xs"
  "deallocated (Destroy a # xs) = deallocated xs"
  "deallocated (StoreBeforeHead a # xs) = deallocated xs"
  "deallocated (Invoke a # xs) = deallocated xs"
  by (simp_all add: deallocated_def)

lemma constructed_simps [simp]:
  "constructed [] = []" "constructed (xs @ ys) = constructed xs @ constructed ys"
  "constructed (Allocate a # xs) = constructed xs"
  "constructed (Deallocate a # xs) = constructed xs"
  "constructed (Construct a # xs) = a # constructed xs"
  "constructed (Destroy a # xs) = constructed xs"
  "constructed (StoreBeforeHead a # xs) = constructed xs"
  "constructed (Invoke a # xs) = constructed xs"
  by (simp_all add: constructed_def)

lemma destroyed_simps [simp]:
  "destroyed [] = []" "destroyed (xs @ ys) = destroyed xs @ destroyed ys"
  "destroyed (Allocate a # xs) = destroyed xs"
  "destroyed (Deallocate a # xs) = destroyed xs"
  "destroyed (Construct a # xs) = destroyed xs"
  "destroyed (Destroy a # xs) = a # destroyed xs"
  "destroyed (StoreBeforeHead a # xs) = destroyed xs"
  "destroyed (Invoke a # xs) = destroyed xs"
  by (simp_all add: destroyed_def)

lemma stored_simps [simp]:
  "stored [] = []" "stored (xs @ ys) = stored xs @ stored ys"
  "stored (Allocate a # xs) = stored xs"
  "stored (Deallocate a # xs) = stored xs"
  "stored (Construct a # xs) = stored xs"
  "stored (Destroy a # xs) = stored xs"
  "stored (StoreBeforeHead a # xs) = a # stored xs"
  "stored (Invoke a # xs) = stored xs"
  by (simp_all add: stored_def)

lemma path_append:
  "path m p (as @ bs) q = (\<exists>r. path m p as r \<and> path m r bs q)"
  by (induction as arbitrary: p) (auto split: option.splits)

lemma path_cong:
  "(\<And>a. a \<in> set as \<Longrightarrow> map_option next (m' a) = map_option next (m a))
    \<Longrightarrow> path m' p as q = path m p as q"
proof (induction as arbitrary: p)
  case Nil
  then show ?case by simp
next
  case (Cons a as)
  have "map_option next (m' a) = map_option next (m a)" using Cons.prems by simp
  moreover have "\<And>r. path m' r as q = path m r as q" using Cons by simp
  ultimately show ?case by (cases "m a"; cases "m' a") simp_all
qed

lemma path_node:
  "path m p (as @ a # bs) q \<Longrightarrow>
     \<exists>n. m a = Some n \<and> path m (next n) bs q"
  by (auto simp: path_append split: option.splits)

lemma path_last:
  "path m p (as @ [a]) q \<Longrightarrow> \<exists>n. m a = Some n \<and> next n = q"
  by (auto simp: path_append split: option.splits)

lemma ctor_layout:
  "spsc_queue_ctor a = Inr q \<Longrightarrow> layout q [] [] (before_head q) [] []"
  by (auto simp: spsc_queue_ctor_def layout_def live_def Let_def split: if_splits)

lemma node_eq: "n\<lparr>data := d, next := p\<rparr> = \<lparr>data = d, next = p\<rparr>"
  by (cases n) simp

subsection \<open>Node acquisition keeps the layout\<close>

lemma layout_cache_facts:
  assumes "layout q xs ys (before_head q) ls ss" and "xs @ ys = c # cs"
  shows "cache_head q = Some c"
    and "\<exists>n. memory q c = Some n \<and> data n = None \<and> next n = Some (hd (cs @ [before_head q]))"
    and "(Some (cache_tail q) = cache_head q) = (xs = [])"
    and "before_head q \<noteq> c"
proof -
  let ?b = "before_head q"
  have e: "xs @ ys @ ?b # ls = c # cs @ ?b # ls" "xs @ ys @ ?b # ls @ ss = c # cs @ ?b # ls @ ss"
    "xs @ ys @ [?b] = c # cs @ [?b]"
    using assms(2) by (simp_all flip: append_assoc)
  from assms(1) have p: "path (memory q) (cache_head q) (c # cs @ ?b # ls) None"
    unfolding layout_def e by simp
  then show ch: "cache_head q = Some c" by simp
  from assms(1) have d: "distinct (c # cs @ ?b # ls @ ss)"
    unfolding layout_def e by simp
  from d show "?b \<noteq> c" by auto
  from assms(1) have nl: "\<not> live (memory q) c"
    unfolding layout_def e by simp
  obtain n where n: "memory q c = Some n" "path (memory q) (next n) (cs @ ?b # ls) None"
    using p by (auto split: option.splits)
  from n(2) have "next n = Some (hd (cs @ [?b]))" by (cases cs) auto
  moreover from nl n(1) have "data n = None" by (simp add: live_def)
  ultimately show "\<exists>n. memory q c = Some n \<and> data n = None \<and> next n = Some (hd (cs @ [?b]))"
    using n(1) by blast
  from assms have ct: "cache_tail q = hd (ys @ [?b])" by (simp add: layout_def)
  show "(Some (cache_tail q) = cache_head q) = (xs = [])"
  proof (cases xs)
    case Nil
    with assms(2) ct ch show ?thesis by simp
  next
    case (Cons x xs')
    with assms(2) have "x = c" by simp
    moreover have "hd (ys @ [?b]) \<in> set (ys @ [?b])" by (rule hd_in_set) simp
    moreover from assms(1) have "distinct (xs @ ys @ ?b # ls @ ss)" by (simp add: layout_def)
    then have "distinct (xs @ (ys @ [?b]))" by auto
    ultimately have "hd (ys @ [?b]) \<noteq> c" using Cons by auto
    with ct ch Cons show ?thesis by simp
  qed
qed

lemma make_node_cached:
  assumes "layout q xs ys (before_head q) ls ss" and "xs @ ys = c # cs"
  shows "make_node args q =
     (case args of
        None \<Rightarrow> (Inl ctor_throw, refill q)
      | Some v \<Rightarrow>
          (Inr c, (refill q)\<lparr>cache_head := Some (hd (cs @ [before_head q])),
                             memory := (memory q)(c \<mapsto> \<lparr>data = Some v, next = None\<rparr>),
                             trace := trace q @ [Construct c]\<rparr>))"
proof -
  note f = layout_cache_facts[OF assms]
  obtain n where n: "memory q c = Some n" "data n = None" "next n = Some (hd (cs @ [before_head q]))"
    using f(2) by blast
  have r: "(if Some (cache_tail q) = cache_head q then q\<lparr>cache_tail := before_head q\<rparr> else q) = refill q"
    by (simp add: refill_def)
  have ne: "Some (cache_tail (refill q)) \<noteq> Some c"
    using f by (simp add: refill_def)
  show ?thesis
    unfolding make_node_def Let_def r
    using ne n f(1)
    by (auto simp: refill_def construct_data_def advance_def load_next_def store_next_def node_eq
          split: option.splits intro!: spsc_queue.equality)
qed

lemma path_upd_other: "a \<notin> set as \<Longrightarrow> path (m(a := v)) p as q = path m p as q"
  by (rule path_cong) auto

lemma path_upd_data:
  "m a = Some n \<Longrightarrow> path (m(a \<mapsto> n\<lparr>data := d\<rparr>)) p as q = path m p as q"
  by (rule path_cong) auto

lemma path_link:
  assumes "path m p (as @ [t]) None" and "distinct (as @ [t])" and "m t = Some nt"
    and "path m (Some x) zs None" and "set zs \<inter> set (as @ [t]) = {}"
  shows "path (m(t \<mapsto> nt\<lparr>next := Some x\<rparr>)) p (as @ t # zs) None"
proof -
  let ?m = "m(t \<mapsto> nt\<lparr>next := Some x\<rparr>)"
  from assms(1) have "path m p as (Some t)" by (auto simp: path_append)
  moreover from assms(2) have "t \<notin> set as" by simp
  ultimately have 1: "path ?m p as (Some t)" by (simp add: path_upd_other)
  from assms(5) have "t \<notin> set zs" by auto
  with assms(4) have "path ?m (Some x) zs None" by (simp add: path_upd_other)
  then have "path ?m (Some t) (t # zs) None" by simp
  with 1 show ?thesis by (auto simp: path_append)
qed

lemma live_upd_next:
  "m t = Some nt \<Longrightarrow> live (m(t \<mapsto> nt\<lparr>next := p\<rparr>)) a = live m a"
  by (simp add: live_def)

lemma live_upd [simp]:
  "live (m(a \<mapsto> n)) c = (if c = a then data n \<noteq> None else live m c)"
  by (simp add: live_def)

lemma live_del [simp]:
  "live (m(a := None)) c = (c \<noteq> a \<and> live m c)"
  by (simp add: live_def)

lemma layout_refill:
  assumes "layout q xs ys (before_head q) ls ss"
  shows "layout (refill q) (if xs = [] then ys else xs) (if xs = [] then [] else ys)
           (before_head q) ls ss"
proof (cases "xs @ ys")
  case Nil
  with assms show ?thesis by (simp add: layout_def refill_def)
next
  case (Cons c cs)
  from layout_cache_facts(3)[OF assms Cons] assms show ?thesis
    by (cases "xs = []") (simp_all add: layout_def refill_def)
qed

lemma layout_take:
  assumes "layout q (c # cs) ys b ls ss"
  shows "layout (q\<lparr>cache_head := Some (hd (cs @ ys @ [b])),
                   memory := (memory q)(c \<mapsto> \<lparr>data = Some v, next = None\<rparr>),
                   trace := trace q @ [Construct c]\<rparr>) cs ys b ls (ss @ [c])"
proof -
  let ?m = "(memory q)(c \<mapsto> \<lparr>data = Some v, next = None\<rparr>)"
  from assms have p: "path (memory q) (cache_head q) (c # cs @ ys @ b # ls) None"
    and d: "distinct (c # cs @ ys @ b # ls @ ss)"
    by (simp_all add: layout_def)
  from p obtain n where "memory q c = Some n" "path (memory q) (next n) (cs @ ys @ b # ls) None"
    by (auto split: option.splits)
  moreover then have "next n = Some (hd (cs @ ys @ [b]))"
    by (cases "cs @ ys") (auto simp flip: append_assoc)
  moreover from d have "c \<notin> set (cs @ ys @ b # ls)" by simp
  ultimately have "path ?m (Some (hd (cs @ ys @ [b]))) (cs @ ys @ b # ls) None"
    by (simp add: path_upd_other)
  moreover from d have "distinct (cs @ ys @ b # ls @ ss @ [c])" by auto
  moreover from assms have "dom ?m = set (cs @ ys @ b # ls @ ss @ [c])"
    by (auto simp: layout_def)
  moreover from assms d have "\<forall>a\<in>set (cs @ ys @ [b]). \<not> live ?m a"
    by (auto simp: layout_def)
  moreover from assms d have "\<forall>a\<in>set (ls @ ss @ [c]). live ?m a"
    by (auto simp: layout_def)
  moreover from assms have "\<forall>a\<in>dom ?m. a < next_addr (alloc q)"
    by (auto simp: layout_def)
  moreover from assms have "cache_tail q = hd (ys @ [b])" "tail q = last (b # ls)"
    "length (allocated (trace q)) = length (deallocated (trace q)) + length (c # cs @ ys @ b # ls @ ss)"
    "length (constructed (trace q)) = length (destroyed (trace q)) + length (ls @ ss)"
    by (simp_all add: layout_def)
  ultimately show ?thesis unfolding layout_def by simp
qed

lemma layout_fresh_addr:
  assumes "layout q xs ys b ls ss"
  shows "memory q (next_addr (alloc q)) = None"
    and "next_addr (alloc q) \<notin> set (xs @ ys @ b # ls @ ss)"
proof -
  from assms have "\<forall>a\<in>dom (memory q). a < next_addr (alloc q)" by (simp add: layout_def)
  then have "next_addr (alloc q) \<notin> dom (memory q)" by blast
  then show "memory q (next_addr (alloc q)) = None" by blast
  moreover from assms have "dom (memory q) = set (xs @ ys @ b # ls @ ss)" by (simp add: layout_def)
  ultimately show "next_addr (alloc q) \<notin> set (xs @ ys @ b # ls @ ss)" by blast
qed

lemma make_node_fresh:
  assumes "layout q [] [] (before_head q) ls ss"
  shows "make_node args q =
     (if avail (alloc q) = 0 then (Inl bad_alloc, q)
      else case args of
        None \<Rightarrow>
          (Inl ctor_throw,
           q\<lparr>alloc := \<lparr>next_addr = Suc (next_addr (alloc q)), avail = avail (alloc q)\<rparr>,
             trace := trace q @ [Allocate (next_addr (alloc q)), Deallocate (next_addr (alloc q))]\<rparr>)
      | Some v \<Rightarrow>
          (Inr (next_addr (alloc q)),
           q\<lparr>alloc := \<lparr>next_addr = Suc (next_addr (alloc q)), avail = avail (alloc q) - 1\<rparr>,
             memory := (memory q)(next_addr (alloc q) \<mapsto> \<lparr>data = Some v, next = None\<rparr>),
             trace := trace q @ [Allocate (next_addr (alloc q)), Construct (next_addr (alloc q))]\<rparr>))"
proof -
  from assms have ch: "cache_head q = Some (before_head q)" and ct: "cache_tail q = before_head q"
    by (simp_all add: layout_def)
  have r: "(if Some (cache_tail q) = cache_head q then q\<lparr>cache_tail := before_head q\<rparr> else q) = q"
    using ch ct by simp
  note fr = layout_fresh_addr(1)[OF assms]
  have del: "(memory q)(next_addr (alloc q) := None) = memory q"
    using fr by (simp add: fun_upd_idem)
  show ?thesis
    unfolding make_node_def Let_def r
    using ch ct del
    by (cases args)
      (auto simp: allocate_def construct_data_def deallocate_def store_next_def node_eq Let_def
        intro!: spsc_queue.equality)
qed

lemma layout_fresh:
  assumes "layout q xs ys b ls ss"
  shows "layout (q\<lparr>alloc := \<lparr>next_addr = Suc (next_addr (alloc q)), avail = k\<rparr>,
                   memory := (memory q)(next_addr (alloc q) \<mapsto> \<lparr>data = Some v, next = None\<rparr>),
                   trace := trace q @ [Allocate (next_addr (alloc q)), Construct (next_addr (alloc q))]\<rparr>)
           xs ys b ls (ss @ [next_addr (alloc q)])"
proof -
  let ?a = "next_addr (alloc q)"
  let ?m = "(memory q)(?a \<mapsto> \<lparr>data = Some v, next = None\<rparr>)"
  note fr = layout_fresh_addr[OF assms]
  from fr(2) have nin: "?a \<notin> set (xs @ ys @ b # ls)" "?a \<notin> set (xs @ ys @ [b])" "?a \<notin> set (ls @ ss)"
    by auto
  from assms have "path (memory q) (cache_head q) (xs @ ys @ b # ls) None"
    by (simp add: layout_def)
  with nin(1) have "path ?m (cache_head q) (xs @ ys @ b # ls) None"
    by (simp add: path_upd_other)
  moreover from assms fr(2) have "distinct (xs @ ys @ b # ls @ ss @ [?a])"
    by (auto simp: layout_def)
  moreover from assms have "dom ?m = set (xs @ ys @ b # ls @ ss @ [?a])"
    by (auto simp: layout_def)
  moreover from assms nin(2) have "\<forall>a\<in>set (xs @ ys @ [b]). \<not> live ?m a"
    by (auto simp: layout_def)
  moreover from assms nin(3) have "\<forall>a\<in>set (ls @ ss @ [?a]). live ?m a"
    by (auto simp: layout_def)
  moreover from assms have "\<forall>a\<in>dom ?m. a < Suc ?a"
    by (auto simp: layout_def less_Suc_eq)
  moreover from assms have "cache_tail q = hd (ys @ [b])" "tail q = last (b # ls)"
    "length (allocated (trace q)) = length (deallocated (trace q)) + length (xs @ ys @ b # ls @ ss)"
    "length (constructed (trace q)) = length (destroyed (trace q)) + length (ls @ ss)"
    by (simp_all add: layout_def)
  ultimately show ?thesis unfolding layout_def by simp
qed

lemma layout_alloc_fail:
  assumes "layout q xs ys b ls ss"
  shows "layout (q\<lparr>alloc := \<lparr>next_addr = Suc (next_addr (alloc q)), avail = k\<rparr>,
                   trace := trace q @ [Allocate (next_addr (alloc q)), Deallocate (next_addr (alloc q))]\<rparr>)
           xs ys b ls ss"
  using assms by (auto simp: layout_def less_Suc_eq)

lemma layout_link:
  assumes "layout q xs ys b ls ss" and "ss \<noteq> []"
    and "path (memory q) (Some (hd ss)) ss None" and "memory q (tail q) = Some nt"
  shows "layout (q\<lparr>memory := (memory q)(tail q \<mapsto> nt\<lparr>next := Some (hd ss)\<rparr>), tail := last ss\<rparr>)
           xs ys b (ls @ ss) []"
proof -
  let ?t = "tail q"
  let ?m = "(memory q)(?t \<mapsto> nt\<lparr>next := Some (hd ss)\<rparr>)"
  from assms(1) have t: "?t = last (b # ls)" and d: "distinct (xs @ ys @ b # ls @ ss)"
    and p: "path (memory q) (cache_head q) (xs @ ys @ b # ls) None"
    by (simp_all add: layout_def)
  have sp: "xs @ ys @ b # ls = (xs @ ys @ butlast (b # ls)) @ [?t]"
    using t by (simp only: append_assoc append_butlast_last_id[of "b # ls", simplified] flip: t)
      (metis append_butlast_last_id list.distinct(1) t)
  from d have d1: "distinct ((xs @ ys @ butlast (b # ls)) @ [?t])"
    unfolding sp[symmetric] by auto
  from d have d2: "set ss \<inter> set ((xs @ ys @ butlast (b # ls)) @ [?t]) = {}"
    unfolding sp[symmetric] by auto
  from p have p1: "path (memory q) (cache_head q) ((xs @ ys @ butlast (b # ls)) @ [?t]) None"
    unfolding sp[symmetric] .
  have "path ?m (cache_head q) ((xs @ ys @ butlast (b # ls)) @ ?t # ss) None"
    by (rule path_link[OF p1 d1 assms(4) assms(3) d2])
  then have "path ?m (cache_head q) (xs @ ys @ b # ls @ ss) None"
    using sp by (metis append.assoc append_Cons append_Nil)
  moreover from assms(1) assms(4) have "dom ?m = set (xs @ ys @ b # ls @ ss)"
    by (auto simp: layout_def)
  moreover have tin: "?t \<in> set (b # ls)" unfolding t by (rule last_in_set) simp
  have lv: "\<And>a. live ?m a = live (memory q) a"
    using assms(4) by (rule live_upd_next)
  from assms(1) have "\<forall>a\<in>set (xs @ ys @ [b]). \<not> live ?m a"
    unfolding lv by (simp add: layout_def)
  moreover from assms(1) have "\<forall>a\<in>set (ls @ ss). live ?m a"
    unfolding lv by (simp add: layout_def)
  moreover from assms(1) assms(4) have "\<forall>a\<in>dom ?m. a < next_addr (alloc q)"
    by (auto simp: layout_def)
  moreover from assms(1) have "cache_tail q = hd (ys @ [b])"
    "length (allocated (trace q)) = length (deallocated (trace q)) + length (xs @ ys @ b # ls @ ss)"
    "length (constructed (trace q)) = length (destroyed (trace q)) + length (ls @ ss)"
    by (simp_all add: layout_def)
  moreover from assms(2) have "last ss = last (b # ls @ ss)" by simp
  ultimately show ?thesis using d unfolding layout_def by simp
qed

lemma make_node_summary:
  assumes lay: "layout q xs ys (before_head q) ls ss" and mk: "make_node args q = (r, q')"
  shows "\<exists>xs' ys' evs.
      before_head q' = before_head q \<and> tail q' = tail q \<and> trace q' = trace q @ evs \<and>
      destroyed evs = [] \<and> stored evs = [] \<and>
      (xs @ ys \<noteq> [] \<longrightarrow> allocated evs = []) \<and>
      avail (alloc q') + length (allocated evs) = avail (alloc q) + length (deallocated evs) \<and>
      length (allocated evs) \<le> 1 \<and>
      (case r of
         Inl e \<Rightarrow> (e = ctor_throw \<and> args = None \<or>
                   e = bad_alloc \<and> xs @ ys = [] \<and> avail (alloc q) = 0) \<and>
                  memory q' = memory q \<and> layout q' xs' ys' (before_head q) ls ss \<and>
                  xs' @ ys' = xs @ ys \<and> constructed evs = []
       | Inr x \<Rightarrow> (\<exists>v. args = Some v \<and>
                       memory q' = (memory q)(x \<mapsto> \<lparr>data = Some v, next = None\<rparr>)) \<and>
                  layout q' xs' ys' (before_head q) ls (ss @ [x]) \<and>
                  xs' @ ys' = tl (xs @ ys) \<and> constructed evs = [x] \<and> deallocated evs = [])"
proof (cases "xs @ ys")
  case Nil
  then have e: "xs = []" "ys = []" by simp_all
  note eq = make_node_fresh[OF lay[unfolded e], of args]
  let ?a = "next_addr (alloc q)"
  show ?thesis
  proof (cases "avail (alloc q) = 0")
    case True
    with eq mk have "r = Inl bad_alloc" "q' = q" by simp_all
    with lay e True show ?thesis
      by (intro exI[of _ "[]"]) simp
  next
    case False
    show ?thesis
    proof (cases args)
      case None
      with eq mk False have r: "r = Inl ctor_throw"
        and q': "q' = q\<lparr>alloc := \<lparr>next_addr = Suc ?a, avail = avail (alloc q)\<rparr>,
                       trace := trace q @ [Allocate ?a, Deallocate ?a]\<rparr>"
        by simp_all
      have "layout q' xs ys (before_head q) ls ss"
        unfolding q' by (rule layout_alloc_fail[OF lay])
      with r None e show ?thesis
        by (intro exI[of _ "[]"] exI[of _ "[Allocate ?a, Deallocate ?a]"]) (simp add: q')
    next
      case (Some v)
      with eq mk False have r: "r = Inr ?a"
        and q': "q' = q\<lparr>alloc := \<lparr>next_addr = Suc ?a, avail = avail (alloc q) - 1\<rparr>,
                       memory := (memory q)(?a \<mapsto> \<lparr>data = Some v, next = None\<rparr>),
                       trace := trace q @ [Allocate ?a, Construct ?a]\<rparr>"
        by simp_all
      have "layout q' xs ys (before_head q) ls (ss @ [?a])"
        unfolding q' by (rule layout_fresh[OF lay])
      with r Some e False show ?thesis
        by (intro exI[of _ "[]"] exI[of _ "[Allocate ?a, Construct ?a]"]) (simp add: q')
    qed
  qed
next
  case (Cons c cs)
  note eq = make_node_cached[OF lay Cons, of args]
  obtain xs2 ys2 where lr: "layout (refill q) (c # xs2) ys2 (before_head q) ls ss"
    and x2: "xs2 @ ys2 = cs"
  proof (cases xs)
    case Nil
    with Cons layout_refill[OF lay] have "layout (refill q) (c # cs) [] (before_head q) ls ss"
      by simp
    then show ?thesis using that[of cs "[]"] by simp
  next
    case (Cons x xs1)
    with \<open>xs @ ys = c # cs\<close> layout_refill[OF lay]
    have "layout (refill q) (c # xs1) ys (before_head q) ls ss" "xs1 @ ys = cs"
      by simp_all
    then show ?thesis using that[of xs1 ys] by simp
  qed
  have f: "before_head (refill q) = before_head q" "tail (refill q) = tail q"
    "trace (refill q) = trace q" "memory (refill q) = memory q"
    by (simp_all add: refill_def)
  show ?thesis
  proof (cases args)
    case None
    with eq mk have "r = Inl ctor_throw" "q' = refill q" by simp_all
    with lr x2 None f Cons show ?thesis
      by (intro exI[of _ "c # xs2"] exI[of _ ys2] exI[of _ "[]"]) (simp add: refill_def)
  next
    case (Some v)
    with eq mk have r: "r = Inr c"
      and q': "q' = (refill q)\<lparr>cache_head := Some (hd (cs @ [before_head q])),
                               memory := (memory q)(c \<mapsto> \<lparr>data = Some v, next = None\<rparr>),
                               trace := trace q @ [Construct c]\<rparr>"
      by simp_all
    have h: "hd (cs @ [before_head q]) = hd (xs2 @ ys2 @ [before_head q])"
      unfolding x2[symmetric] by simp
    from layout_take[OF lr, of v]
    have "layout q' xs2 ys2 (before_head q) ls (ss @ [c])"
      unfolding q' f h .
    with r Some Cons x2 show ?thesis
      by (intro exI[of _ xs2] exI[of _ ys2] exI[of _ "[Construct c]"])
        (simp add: q' f refill_def)
  qed
qed

subsection \<open>Producer functions keep the layout\<close>

lemma layout_tail_in:
  assumes "layout q xs ys b ls ss"
  shows "tail q \<in> set (b # ls)" and "tail q \<notin> set ss" and "\<exists>n. memory q (tail q) = Some n"
proof -
  from assms have t: "tail q = last (b # ls)" by (simp add: layout_def)
  show 1: "tail q \<in> set (b # ls)" unfolding t by (rule last_in_set) simp
  from assms have "distinct (xs @ ys @ b # ls @ ss)" by (simp add: layout_def)
  with 1 show "tail q \<notin> set ss" by auto
  from assms have "dom (memory q) = set (xs @ ys @ b # ls @ ss)" by (simp add: layout_def)
  with 1 have "tail q \<in> dom (memory q)" by auto
  then show "\<exists>n. memory q (tail q) = Some n" by blast
qed

lemma emplace_summary:
  assumes lay: "layout q xs ys (before_head q) ls []" and em: "emplace args q = (r, q')"
  shows "\<exists>xs' ys' evs.
      before_head q' = before_head q \<and> trace q' = trace q @ evs \<and>
      destroyed evs = [] \<and> stored evs = [] \<and>
      (xs @ ys \<noteq> [] \<longrightarrow> allocated evs = []) \<and>
      (case r of
         Inl e \<Rightarrow> (e = ctor_throw \<and> args = None \<or>
                   e = bad_alloc \<and> xs @ ys = [] \<and> avail (alloc q) = 0) \<and>
                  memory q' = memory q \<and> tail q' = tail q \<and>
                  layout q' xs' ys' (before_head q) ls [] \<and> xs' @ ys' = xs @ ys
       | Inr u \<Rightarrow> (\<exists>v x. args = Some v \<and> layout q' xs' ys' (before_head q) (ls @ [x]) [] \<and>
                       data_of (memory q') x = Some v \<and>
                       (\<forall>a\<in>set ls. data_of (memory q') a = data_of (memory q) a) \<and>
                       tail q' = x) \<and>
                  xs' @ ys' = tl (xs @ ys))"
proof -
  obtain r1 q1 where mk: "make_node args q = (r1, q1)" by (cases "make_node args q")
  from make_node_summary[OF lay mk] obtain xs' ys' evs where
    s: "before_head q1 = before_head q" "tail q1 = tail q" "trace q1 = trace q @ evs"
       "destroyed evs = []" "stored evs = []" "xs @ ys \<noteq> [] \<longrightarrow> allocated evs = []"
    and c: "case r1 of
         Inl e \<Rightarrow> (e = ctor_throw \<and> args = None \<or>
                   e = bad_alloc \<and> xs @ ys = [] \<and> avail (alloc q) = 0) \<and>
                  memory q1 = memory q \<and> layout q1 xs' ys' (before_head q) ls [] \<and>
                  xs' @ ys' = xs @ ys \<and> constructed evs = []
       | Inr x \<Rightarrow> (\<exists>v. args = Some v \<and>
                       memory q1 = (memory q)(x \<mapsto> \<lparr>data = Some v, next = None\<rparr>)) \<and>
                  layout q1 xs' ys' (before_head q) ls ([] @ [x]) \<and>
                  xs' @ ys' = tl (xs @ ys) \<and> constructed evs = [x] \<and> deallocated evs = []"
    by blast
  show ?thesis
  proof (cases r1)
    case (Inl e)
    with em mk have "r = Inl e" "q' = q1" by (simp_all add: emplace_def)
    with Inl c s show ?thesis
      by (intro exI[of _ xs'] exI[of _ ys'] exI[of _ evs]) simp
  next
    case (Inr x)
    with c obtain v where v: "args = Some v"
      and m1: "memory q1 = (memory q)(x \<mapsto> \<lparr>data = Some v, next = None\<rparr>)"
      and l1: "layout q1 xs' ys' (before_head q) ls [x]"
      and x': "xs' @ ys' = tl (xs @ ys)"
      by auto
    from layout_tail_in[OF l1] obtain nt where
      tin: "tail q1 \<in> set (before_head q # ls)" and tx: "tail q1 \<noteq> x"
      and nt: "memory q1 (tail q1) = Some nt"
      by auto
    let ?m = "(memory q1)(tail q1 \<mapsto> nt\<lparr>next := Some x\<rparr>)"
    from em mk Inr nt have r: "r = Inr ()" and q': "q' = q1\<lparr>memory := ?m, tail := x\<rparr>"
      by (simp_all add: emplace_def store_next_def)
    have px: "path (memory q1) (Some (hd [x])) [x] None" by (simp add: m1)
    from layout_link[OF l1 _ px nt]
    have l': "layout q' xs' ys' (before_head q) (ls @ [x]) []" by (simp add: q')
    have dx: "data_of (memory q') x = Some v"
      using tx by (simp add: q' data_of_def m1)
    have dl: "data_of (memory q') a = data_of (memory q) a" if "a \<in> set ls" for a
    proof -
      from l1 that have "a \<noteq> x" by (auto simp: layout_def)
      then show ?thesis using nt
        by (cases "a = tail q1") (auto simp: q' data_of_def m1 split: if_splits)
    qed
    from r v l' dx dl x' s show ?thesis
      by (intro exI[of _ xs'] exI[of _ ys'] exI[of _ evs]) (simp add: q')
  qed
qed

subsection \<open>Consumer functions keep the layout\<close>

lemma layout_head:
  assumes "layout q xs ys (before_head q) ls ss"
  shows "head q = Inr (case ls of [] \<Rightarrow> None | l # ls' \<Rightarrow> Some l)"
proof -
  from assms have "path (memory q) (cache_head q) ((xs @ ys) @ before_head q # ls) None"
    by (simp add: layout_def)
  then obtain n where "memory q (before_head q) = Some n" "path (memory q) (next n) ls None"
    using path_node by blast
  then show ?thesis by (cases ls) (simp_all add: head_def load_next_def)
qed

lemma layout_next:
  assumes "layout q xs ys b ls ss"
  shows "load_next b q = Inr (case ls of [] \<Rightarrow> None | l # ls' \<Rightarrow> Some l)"
proof -
  from assms have "path (memory q) (cache_head q) ((xs @ ys) @ b # ls) None"
    by (simp add: layout_def)
  then obtain n where "memory q b = Some n" "path (memory q) (next n) ls None"
    using path_node by blast
  then show ?thesis by (cases ls) (simp_all add: load_next_def)
qed

lemma layout_live_front:
  assumes "layout q xs ys b (l # ls) ss"
  shows "\<exists>n v. memory q l = Some n \<and> data n = Some v"
proof -
  from assms have "live (memory q) l" by (simp add: layout_def)
  then show ?thesis by (auto simp: live_def split: option.splits)
qed

lemma layout_advance:
  assumes "layout q xs ys b (l # ls) ss" and "memory q l = Some nl"
  shows "layout (q\<lparr>memory := (memory q)(l \<mapsto> nl\<lparr>data := None\<rparr>), trace := trace q @ [Destroy l]\<rparr>)
           xs (ys @ [b]) l ls ss"
proof -
  let ?m = "(memory q)(l \<mapsto> nl\<lparr>data := None\<rparr>)"
  from assms(1) have d: "distinct (xs @ ys @ b # l # ls @ ss)" by (simp add: layout_def)
  from assms have "path ?m (cache_head q) (xs @ ys @ b # l # ls) None"
    by (simp add: layout_def path_upd_data)
  moreover from assms have "dom ?m = set (xs @ ys @ b # l # ls @ ss)"
    by (auto simp: layout_def)
  moreover from assms(1) have "\<forall>a\<in>set (xs @ ys @ [b, l]). \<not> live ?m a"
    by (auto simp: layout_def)
  moreover from assms(1) d have "\<forall>a\<in>set (ls @ ss). live ?m a"
    by (auto simp: layout_def)
  moreover from assms have "\<forall>a\<in>dom ?m. a < next_addr (alloc q)"
    by (auto simp: layout_def)
  moreover from assms(1) have "cache_tail q = hd (ys @ [b])" "tail q = last (b # l # ls)"
    "length (allocated (trace q)) = length (deallocated (trace q)) + length (xs @ ys @ b # l # ls @ ss)"
    "length (constructed (trace q)) = length (destroyed (trace q)) + length (l # ls @ ss)"
    by (simp_all add: layout_def)
  moreover have "hd ((ys @ [b]) @ [l]) = hd (ys @ [b])" by (cases ys) simp_all
  ultimately show ?thesis using d unfolding layout_def by simp
qed

lemma layout_store_before_head:
  "layout (store_before_head x q) xs ys b ls ss = layout q xs ys b ls ss"
  by (simp add: layout_def store_before_head_def)

lemma layout_invoke:
  "layout (q\<lparr>trace := trace q @ [Invoke x]\<rparr>) xs ys b ls ss = layout q xs ys b ls ss"
  by (simp add: layout_def)

lemma destroy_front:
  assumes "layout q xs ys b (l # ls) ss"
  shows "\<exists>nl v. memory q l = Some nl \<and> data nl = Some v \<and> load_data l q = Inr v \<and>
           destroy l q = Inr (q\<lparr>memory := (memory q)(l \<mapsto> nl\<lparr>data := None\<rparr>),
                                trace := trace q @ [Destroy l]\<rparr>) \<and>
           layout (q\<lparr>memory := (memory q)(l \<mapsto> nl\<lparr>data := None\<rparr>),
                     trace := trace q @ [Destroy l]\<rparr>) xs (ys @ [b]) l ls ss"
proof -
  from layout_live_front[OF assms] obtain nl v where n: "memory q l = Some nl" "data nl = Some v"
    by blast
  from n layout_advance[OF assms n(1)] show ?thesis
    by (simp add: load_data_def destroy_def)
qed

lemma pop_empty:
  assumes "layout q xs ys (before_head q) [] ss"
  shows "pop out q = (Inr False, out, q)"
  using layout_head[OF assms] by (simp add: pop_def)

lemma pop_front:
  assumes "layout q xs ys (before_head q) (l # ls) ss"
  shows "\<exists>nl v q'. memory q l = Some nl \<and> data nl = Some v \<and>
           q' = store_before_head l
                  (q\<lparr>memory := (memory q)(l \<mapsto> nl\<lparr>data := None\<rparr>), trace := trace q @ [Destroy l]\<rparr>) \<and>
           pop out q = (Inr True, v, q') \<and>
           layout q' xs (ys @ [before_head q]) (before_head q') ls ss"
proof -
  from destroy_front[OF assms] obtain nl v where
    n: "memory q l = Some nl" "data nl = Some v" "load_data l q = Inr v"
    and d: "destroy l q = Inr (q\<lparr>memory := (memory q)(l \<mapsto> nl\<lparr>data := None\<rparr>),
                                trace := trace q @ [Destroy l]\<rparr>)"
    and l: "layout (q\<lparr>memory := (memory q)(l \<mapsto> nl\<lparr>data := None\<rparr>),
                     trace := trace q @ [Destroy l]\<rparr>) xs (ys @ [before_head q]) l ls ss"
    by blast
  have "before_head (store_before_head l
          (q\<lparr>memory := (memory q)(l \<mapsto> nl\<lparr>data := None\<rparr>), trace := trace q @ [Destroy l]\<rparr>)) = l"
    by (simp add: store_before_head_def)
  with n d l layout_head[OF assms] show ?thesis
    by (simp add: pop_def layout_store_before_head)
qed

lemma clear_loop_layout:
  "layout q xs ys b ls ss \<Longrightarrow>
     \<exists>q'. clear_loop b q = Some (Inr (last (b # ls)), q') \<and>
          layout q' xs (ys @ butlast (b # ls)) (last (b # ls)) [] ss \<and>
          trace q' = trace q @ map Destroy ls \<and>
          before_head q' = before_head q \<and> tail q' = tail q"
proof (induction ls arbitrary: q ys b)
  case Nil
  from layout_next[OF Nil] have "clear_loop b q = Some (Inr b, q)"
    by (subst clear_loop.simps) simp
  with Nil show ?case by simp
next
  case (Cons l ls)
  from destroy_front[OF Cons.prems] obtain nl v where
    d: "destroy l q = Inr (q\<lparr>memory := (memory q)(l \<mapsto> nl\<lparr>data := None\<rparr>),
                                trace := trace q @ [Destroy l]\<rparr>)"
    and l: "layout (q\<lparr>memory := (memory q)(l \<mapsto> nl\<lparr>data := None\<rparr>),
                     trace := trace q @ [Destroy l]\<rparr>) xs (ys @ [b]) l ls ss"
    by blast
  let ?q1 = "q\<lparr>memory := (memory q)(l \<mapsto> nl\<lparr>data := None\<rparr>), trace := trace q @ [Destroy l]\<rparr>"
  from Cons.IH[OF l] obtain q' where
    q': "clear_loop l ?q1 = Some (Inr (last (l # ls)), q')"
        "layout q' xs ((ys @ [b]) @ butlast (l # ls)) (last (l # ls)) [] ss"
        "trace q' = trace ?q1 @ map Destroy ls"
        "before_head q' = before_head ?q1" "tail q' = tail ?q1"
    by blast
  from layout_next[OF Cons.prems] d q'(1)
  have "clear_loop b q = Some (Inr (last (b # l # ls)), q')"
    by (subst clear_loop.simps) simp
  with q' show ?case by simp
qed

lemma clear_layout:
  assumes "layout q xs ys (before_head q) ls ss"
  shows "\<exists>q'. clear q = Some (Inr (), q') \<and>
          layout q' xs (ys @ butlast (before_head q # ls)) (before_head q') [] ss \<and>
          before_head q' = last (before_head q # ls) \<and>
          trace q' = trace q @ map Destroy ls @ [StoreBeforeHead (last (before_head q # ls))] \<and>
          tail q' = tail q"
proof -
  from clear_loop_layout[OF assms] obtain q1 where
    q1: "clear_loop (before_head q) q = Some (Inr (last (before_head q # ls)), q1)"
        "layout q1 xs (ys @ butlast (before_head q # ls)) (last (before_head q # ls)) [] ss"
        "trace q1 = trace q @ map Destroy ls"
        "before_head q1 = before_head q" "tail q1 = tail q"
    by blast
  let ?q' = "store_before_head (last (before_head q # ls)) q1"
  from q1(1) have "clear q = Some (Inr (), ?q')" by (simp add: clear_def)
  moreover have "before_head ?q' = last (before_head q # ls)"
    "trace ?q' = trace q @ map Destroy ls @ [StoreBeforeHead (last (before_head q # ls))]"
    "tail ?q' = tail q"
    using q1 by (simp_all add: store_before_head_def)
  moreover have bh: "before_head ?q' = last (before_head q # ls)"
    by (simp add: store_before_head_def)
  from q1(2) have "layout ?q' xs (ys @ butlast (before_head q # ls)) (before_head ?q') [] ss"
    unfolding bh layout_store_before_head .
  ultimately show ?thesis by blast
qed

lemma consume_loop_layout:
  "layout q xs ys (before_head q) ls ss \<Longrightarrow>
     \<exists>r u' q' ds ls'.
        consume_loop f (case ls of [] \<Rightarrow> None | l # ls' \<Rightarrow> Some l) u q = Some (r, u', q') \<and>
        layout q' xs (ys @ butlast (before_head q # ds)) (before_head q') ls' ss \<and>
        before_head q' = last (before_head q # ds) \<and>
        ls = ds @ ls' \<and> tail q' = tail q \<and>
        (r = Inr () \<and> ls' = [] \<and> trace q' = trace q @ consume_events ds \<or>
         r = Inl fn_throw \<and> ls' \<noteq> [] \<and> trace q' = trace q @ consume_events ds @ [Invoke (hd ls')])"
proof (induction ls arbitrary: q ys u)
  case Nil
  have "consume_loop f None u q = Some (Inr (), u, q)"
    by (subst consume_loop.simps) simp
  with Nil show ?case
    by (intro exI[of _ "Inr ()"] exI[of _ u] exI[of _ q] exI[of _ "[]"]) (simp add: consume_events_def)
next
  case (Cons l ls)
  from layout_live_front[OF Cons.prems] obtain nl v where
    n: "memory q l = Some nl" "data nl = Some v" by blast
  then have ld: "load_data l q = Inr v" by (simp add: load_data_def)
  let ?q1 = "q\<lparr>trace := trace q @ [Invoke l]\<rparr>"
  have l1: "layout ?q1 xs ys (before_head ?q1) (l # ls) ss"
    using Cons.prems by (simp add: layout_invoke)
  show ?case
  proof (cases "f v u")
    case None
    with ld have "consume_loop f (Some l) u q = Some (Inl fn_throw, u, ?q1)"
      by (subst consume_loop.simps) (simp add: Let_def)
    with l1 show ?thesis
      by (intro exI[of _ "Inl fn_throw"] exI[of _ u] exI[of _ ?q1] exI[of _ "[]"] exI[of _ "l # ls"])
        (simp add: consume_events_def)
  next
    case (Some u1)
    from destroy_front[OF l1] n obtain
      d: "destroy l ?q1 = Inr (?q1\<lparr>memory := (memory ?q1)(l \<mapsto> nl\<lparr>data := None\<rparr>),
                                trace := trace ?q1 @ [Destroy l]\<rparr>)"
      and l2: "layout (?q1\<lparr>memory := (memory ?q1)(l \<mapsto> nl\<lparr>data := None\<rparr>),
                     trace := trace ?q1 @ [Destroy l]\<rparr>) xs (ys @ [before_head q]) l ls ss"
      by auto
    let ?q2 = "?q1\<lparr>memory := (memory ?q1)(l \<mapsto> nl\<lparr>data := None\<rparr>), trace := trace ?q1 @ [Destroy l]\<rparr>"
    let ?q3 = "store_before_head l ?q2"
    have b3: "before_head ?q3 = l" by (simp add: store_before_head_def)
    from l2 have l3: "layout ?q3 xs (ys @ [before_head q]) (before_head ?q3) ls ss"
      by (simp only: b3 layout_store_before_head)
    from Cons.IH[OF l3, of u1] obtain r u' q' ds ls' where
      ih: "consume_loop f (case ls of [] \<Rightarrow> None | l # ls' \<Rightarrow> Some l) u1 ?q3 = Some (r, u', q')"
          "layout q' xs ((ys @ [before_head q]) @ butlast (before_head ?q3 # ds)) (before_head q') ls' ss"
          "before_head q' = last (before_head ?q3 # ds)"
          "ls = ds @ ls'" "tail q' = tail ?q3"
          "r = Inr () \<and> ls' = [] \<and> trace q' = trace ?q3 @ consume_events ds \<or>
           r = Inl fn_throw \<and> ls' \<noteq> [] \<and> trace q' = trace ?q3 @ consume_events ds @ [Invoke (hd ls')]"
      by blast
    from layout_next[OF l3] have "load_next l ?q3 = Inr (case ls of [] \<Rightarrow> None | l # ls' \<Rightarrow> Some l)"
      by (simp only: b3)
    with ld Some d ih(1) have "consume_loop f (Some l) u q = Some (r, u', q')"
      by (subst consume_loop.simps) (simp add: Let_def)
    moreover have "trace ?q3 @ consume_events ds = trace q @ consume_events (l # ds)"
      by (simp add: store_before_head_def consume_events_def)
    moreover have "tail ?q3 = tail q" by (simp add: store_before_head_def)
    ultimately show ?thesis using ih b3
      by (intro exI[of _ r] exI[of _ u'] exI[of _ q'] exI[of _ "l # ds"] exI[of _ ls']) auto
  qed
qed

lemma consume_all_layout:
  assumes "layout q xs ys (before_head q) ls ss"
  shows "\<exists>r u' q' ds ls'.
        consume_all f u q = Some (r, u', q') \<and>
        layout q' xs (ys @ butlast (before_head q # ds)) (before_head q') ls' ss \<and>
        before_head q' = last (before_head q # ds) \<and>
        ls = ds @ ls' \<and> tail q' = tail q \<and>
        (r = Inr () \<and> ls' = [] \<and> trace q' = trace q @ consume_events ds \<or>
         r = Inl fn_throw \<and> ls' \<noteq> [] \<and> trace q' = trace q @ consume_events ds @ [Invoke (hd ls')])"
  using consume_loop_layout[OF assms, of f u] layout_head[OF assms]
  by (simp add: consume_all_def)

subsection \<open>The range push\<close>

lemma release_events_list [simp]:
  "release_events [] = []"
  "release_events (x # xs) = Destroy x # Deallocate x # release_events xs"
  by (simp_all add: release_events_def)

lemma release_all_fields:
  "trace (release_all zs q) = trace q @ release_events zs"
  "memory (release_all zs q) = (\<lambda>a. if a \<in> set zs then None else memory q a)"
  "tail (release_all zs q) = tail q"
  "before_head (release_all zs q) = before_head q"
  "cache_tail (release_all zs q) = cache_tail q"
  "cache_head (release_all zs q) = cache_head q"
  "next_addr (alloc (release_all zs q)) = next_addr (alloc q)"
  "avail (alloc (release_all zs q)) = avail (alloc q) + length zs"
  by (induction zs arbitrary: q; simp add: fun_eq_iff)+

lemma release_events_simps [simp]:
  "constructed (release_events zs) = []"
  "destroyed (release_events zs) = zs"
  "deallocated (release_events zs) = zs"
  "allocated (release_events zs) = []"
  "stored (release_events zs) = []"
  by (induction zs; simp)+

lemma destroy_chain_path:
  "path (memory q) p zs None \<Longrightarrow> distinct zs \<Longrightarrow> \<forall>a\<in>set zs. live (memory q) a \<Longrightarrow>
     destroy_chain p q = Some (Inr (), release_all zs q)"
proof (induction zs arbitrary: p q)
  case Nil
  then show ?case by (subst destroy_chain.simps) simp
next
  case (Cons x zs)
  from Cons.prems obtain n v where p: "p = Some x" and n: "memory q x = Some n"
    and pn: "path (memory q) (next n) zs None" and v: "data n = Some v"
    by (auto simp: live_def split: option.splits)
  let ?q1 = "q\<lparr>memory := (memory q)(x \<mapsto> n\<lparr>data := None\<rparr>), trace := trace q @ [Destroy x]\<rparr>"
  let ?q2 = "q\<lparr>alloc := (alloc q)\<lparr>avail := Suc (avail (alloc q))\<rparr>,
               memory := (memory q)(x := None),
               trace := trace q @ [Destroy x, Deallocate x]\<rparr>"
  have d: "destroy x q = Inr ?q1" using n v by (simp add: destroy_def)
  have f: "deallocate x ?q1 = Inr ?q2"
    by (simp add: deallocate_def)
  from Cons.prems(2) have xz: "x \<notin> set zs" by simp
  with pn have 1: "path (memory ?q2) (next n) zs None" by (simp add: path_upd_other)
  from Cons.prems xz have 2: "\<forall>a\<in>set zs. live (memory ?q2) a" by auto
  from Cons.prems have 3: "distinct zs" by simp
  from Cons.IH[OF 1 3 2] p n d f show ?case
    by (subst destroy_chain.simps) (simp add: advance_def load_next_def)
qed

lemma layout_release:
  "layout q xs ys b ls (ss @ zs) \<Longrightarrow> layout (release_all zs q) xs ys b ls ss"
proof (induction zs arbitrary: q ss)
  case Nil
  then show ?case by simp
next
  case (Cons z zs)
  let ?q = "q\<lparr>alloc := (alloc q)\<lparr>avail := Suc (avail (alloc q))\<rparr>,
               memory := (memory q)(z := None),
               trace := trace q @ [Destroy z, Deallocate z]\<rparr>"
  from Cons.prems have d: "distinct (xs @ ys @ b # ls @ ss @ z # zs)" by (simp add: layout_def)
  from Cons.prems d have "path (memory ?q) (cache_head ?q) (xs @ ys @ b # ls) None"
    by (simp add: layout_def path_upd_other)
  moreover from Cons.prems d have "dom (memory ?q) = set (xs @ ys @ b # ls @ (ss @ zs))"
    by (auto simp: layout_def)
  moreover from Cons.prems have "\<forall>a\<in>set (xs @ ys @ [b]). \<not> live (memory ?q) a"
    by (auto simp: layout_def)
  moreover from Cons.prems d have "\<forall>a\<in>set (ls @ (ss @ zs)). live (memory ?q) a"
    by (auto simp: layout_def)
  moreover from Cons.prems have "\<forall>a\<in>dom (memory ?q). a < next_addr (alloc ?q)"
    by (auto simp: layout_def)
  moreover from Cons.prems have "cache_tail q = hd (ys @ [b])" "tail q = last (b # ls)"
    "length (allocated (trace q)) = length (deallocated (trace q)) + length (xs @ ys @ b # ls @ ss @ z # zs)"
    "length (constructed (trace q)) = length (destroyed (trace q)) + length (ls @ ss @ z # zs)"
    by (simp_all add: layout_def)
  moreover from d have "distinct (xs @ ys @ b # ls @ (ss @ zs))" by auto
  ultimately have "layout ?q xs ys b ls (ss @ zs)" unfolding layout_def by simp
  from Cons.IH[OF this] show ?case by simp
qed

lemma layout_upd_staged_next:
  assumes "layout q xs ys b ls ss" and "t \<in> set ss" and "memory q t = Some nt"
  shows "layout (q\<lparr>memory := (memory q)(t \<mapsto> nt\<lparr>next := p\<rparr>)\<rparr>) xs ys b ls ss"
proof -
  let ?m = "(memory q)(t \<mapsto> nt\<lparr>next := p\<rparr>)"
  from assms have d: "distinct (xs @ ys @ b # ls @ ss)" by (simp add: layout_def)
  with assms(2) have "t \<notin> set (xs @ ys @ b # ls)" by auto
  with assms(1) have "path ?m (cache_head q) (xs @ ys @ b # ls) None"
    by (simp add: layout_def path_upd_other)
  moreover from assms have "dom ?m = set (xs @ ys @ b # ls @ ss)"
    by (auto simp: layout_def)
  moreover have lv: "\<And>a. live ?m a = live (memory q) a"
    using assms(3) by (rule live_upd_next)
  from assms(1) have "\<forall>a\<in>set (xs @ ys @ [b]). \<not> live ?m a"
    unfolding lv by (simp add: layout_def)
  moreover from assms(1) have "\<forall>a\<in>set (ls @ ss). live ?m a"
    unfolding lv by (simp add: layout_def)
  moreover from assms have "\<forall>a\<in>dom ?m. a < next_addr (alloc q)"
    by (auto simp: layout_def)
  moreover from assms(1) have "cache_tail q = hd (ys @ [b])" "tail q = last (b # ls)"
    "length (allocated (trace q)) = length (deallocated (trace q)) + length (xs @ ys @ b # ls @ ss)"
    "length (constructed (trace q)) = length (destroyed (trace q)) + length (ls @ ss)"
    by (simp_all add: layout_def)
  ultimately show ?thesis using d unfolding layout_def by simp
qed

lemma stage_summary:
  "layout q xs ys (before_head q) ls ss \<Longrightarrow> ss \<noteq> [] \<Longrightarrow>
   path (memory q) (Some (hd ss)) ss None \<Longrightarrow> stage vs (last ss) q = (r, q') \<Longrightarrow>
     \<exists>xs' ys' ss' evs.
       before_head q' = before_head q \<and> tail q' = tail q \<and> trace q' = trace q @ evs \<and>
       destroyed evs = [] \<and> stored evs = [] \<and> constructed evs = ss' \<and>
       layout q' xs' ys' (before_head q) ls (ss @ ss') \<and>
       path (memory q') (Some (hd ss)) (ss @ ss') None \<and>
       (\<forall>a\<in>set (before_head q # ls). memory q' a = memory q a) \<and>
       length ss' \<le> length (takeWhile (\<lambda>v. v \<noteq> None) vs) \<and>
       (case r of
          Inl e \<Rightarrow> e = ctor_throw \<and> length ss' = length (takeWhile (\<lambda>v. v \<noteq> None) vs) \<or>
                   e = bad_alloc \<and> avail (alloc q) \<le> length ss'
        | Inr t \<Rightarrow> t = last (ss @ ss') \<and> None \<notin> set vs \<and> length ss' = length vs)"
proof (induction vs arbitrary: q xs ys ss)
  case Nil
  then show ?case
    by (intro exI[of _ xs] exI[of _ ys] exI[of _ "[]"]) auto
next
  case (Cons v vs)
  note lay = Cons.prems(1)
  obtain r1 q1 where mk: "make_node v q = (r1, q1)" by (cases "make_node v q")
  from make_node_summary[OF lay mk] obtain xs1 ys1 evs1 where
    s: "before_head q1 = before_head q" "tail q1 = tail q" "trace q1 = trace q @ evs1"
       "destroyed evs1 = []" "stored evs1 = []"
       "avail (alloc q1) + length (allocated evs1) = avail (alloc q) + length (deallocated evs1)"
       "length (allocated evs1) \<le> 1"
    and c: "case r1 of
         Inl e \<Rightarrow> (e = ctor_throw \<and> v = None \<or>
                   e = bad_alloc \<and> xs @ ys = [] \<and> avail (alloc q) = 0) \<and>
                  memory q1 = memory q \<and> layout q1 xs1 ys1 (before_head q) ls ss \<and>
                  xs1 @ ys1 = xs @ ys \<and> constructed evs1 = []
       | Inr x \<Rightarrow> (\<exists>w. v = Some w \<and>
                       memory q1 = (memory q)(x \<mapsto> \<lparr>data = Some w, next = None\<rparr>)) \<and>
                  layout q1 xs1 ys1 (before_head q) ls (ss @ [x]) \<and>
                  xs1 @ ys1 = tl (xs @ ys) \<and> constructed evs1 = [x] \<and> deallocated evs1 = []"
    by blast
  show ?case
  proof (cases r1)
    case (Inl e)
    with Cons.prems(4) mk have "r = Inl e" "q' = q1" by simp_all
    with Inl c s Cons.prems(3) show ?thesis
      by (intro exI[of _ xs1] exI[of _ ys1] exI[of _ "[]"] exI[of _ evs1]) auto
  next
    case (Inr x)
    with c obtain w where w: "v = Some w"
      and m1: "memory q1 = (memory q)(x \<mapsto> \<lparr>data = Some w, next = None\<rparr>)"
      and l1: "layout q1 xs1 ys1 (before_head q) ls (ss @ [x])"
      and c1: "constructed evs1 = [x]" and de1: "deallocated evs1 = []"
      by auto
    let ?t = "last ss"
    from l1 have d1: "distinct (xs1 @ ys1 @ before_head q # ls @ ss @ [x])"
      and dm1: "dom (memory q1) = set (xs1 @ ys1 @ before_head q # ls @ ss @ [x])"
      by (simp_all add: layout_def)
    have tin: "?t \<in> set ss" using Cons.prems(2) by simp
    with d1 have tx: "?t \<noteq> x" and xs_nin: "x \<notin> set ss" by auto
    from tin dm1 have "?t \<in> dom (memory q1)" by auto
    then obtain nt where nt: "memory q1 ?t = Some nt" by blast
    let ?q2 = "q1\<lparr>memory := (memory q1)(?t \<mapsto> nt\<lparr>next := Some x\<rparr>)\<rparr>"
    have st: "store_next ?t (Some x) q1 = Inr ?q2" using nt by (simp add: store_next_def)
    have l2: "layout ?q2 xs1 ys1 (before_head ?q2) ls (ss @ [x])"
      using layout_upd_staged_next[OF l1 _ nt, of "Some x"] tin s(1) by simp
    have ss: "ss = butlast ss @ [?t]" using Cons.prems(2) by simp
    from Cons.prems(3) xs_nin have "path (memory q1) (Some (hd ss)) ss None"
      by (simp add: m1 path_upd_other)
    then have pa: "path (memory q1) (Some (hd ss)) (butlast ss @ [?t]) None"
      using ss by simp
    from d1 have "distinct ss" by simp
    then have da: "distinct (butlast ss @ [?t])" using ss by simp
    have px: "path (memory q1) (Some x) [x] None" by (simp add: m1)
    from xs_nin have dj: "set [x] \<inter> set (butlast ss @ [?t]) = {}"
      using ss by (metis Int_insert_left_if0 inf_bot_left list.simps(15) set_empty)
    have e: "butlast ss @ [?t, x] = ss @ [x]"
    proof -
      have "(butlast ss @ [?t]) @ [x] = ss @ [x]"
        by (simp only: append_butlast_last_id[OF Cons.prems(2)])
      then show ?thesis by simp
    qed
    from path_link[OF pa da nt px dj]
    have p2: "path (memory ?q2) (Some (hd (ss @ [x]))) (ss @ [x]) None"
      using Cons.prems(2) unfolding e by simp
    have sg: "stage vs (last (ss @ [x])) ?q2 = (r, q')"
      using Cons.prems(4) mk Inr st by simp
    from Cons.IH[OF l2 _ p2 sg] obtain xs' ys' ss' evs where
      ih: "before_head q' = before_head ?q2" "tail q' = tail ?q2" "trace q' = trace ?q2 @ evs"
       "destroyed evs = []" "stored evs = []" "constructed evs = ss'"
       "layout q' xs' ys' (before_head ?q2) ls ((ss @ [x]) @ ss')"
       "path (memory q') (Some (hd (ss @ [x]))) ((ss @ [x]) @ ss') None"
       "\<forall>a\<in>set (before_head ?q2 # ls). memory q' a = memory ?q2 a"
       "length ss' \<le> length (takeWhile (\<lambda>v. v \<noteq> None) vs)"
       "case r of
          Inl e \<Rightarrow> e = ctor_throw \<and> length ss' = length (takeWhile (\<lambda>v. v \<noteq> None) vs) \<or>
                   e = bad_alloc \<and> avail (alloc ?q2) \<le> length ss'
        | Inr t \<Rightarrow> t = last ((ss @ [x]) @ ss') \<and> None \<notin> set vs \<and> length ss' = length vs"
      by auto
    have fr: "memory ?q2 a = memory q a" if "a \<in> set (before_head q # ls)" for a
    proof -
      from that d1 have "a \<noteq> x" "a \<notin> set ss" by auto
      with tin have "a \<noteq> ?t" by auto
      with \<open>a \<noteq> x\<close> show ?thesis by (simp add: m1)
    qed
    have av: "avail (alloc q) \<le> Suc (avail (alloc ?q2))"
      using s(6,7) de1 by simp
    have tw: "length (x # ss') \<le> length (takeWhile (\<lambda>v. v \<noteq> None) (v # vs))"
      using ih(10) w by simp
    have cr: "case r of
          Inl e \<Rightarrow> e = ctor_throw \<and>
                     length (x # ss') = length (takeWhile (\<lambda>v. v \<noteq> None) (v # vs)) \<or>
                   e = bad_alloc \<and> avail (alloc q) \<le> length (x # ss')
        | Inr t \<Rightarrow> t = last (ss @ x # ss') \<and> None \<notin> set (v # vs) \<and>
                   length (x # ss') = length (v # vs)"
      using ih(11) av w by (cases r) auto
    have fr': "\<forall>a\<in>set (before_head q # ls). memory q' a = memory q a"
      using ih(9) fr s(1) by simp
    have "before_head q' = before_head q \<and> tail q' = tail q \<and>
       trace q' = trace q @ (evs1 @ evs) \<and>
       destroyed (evs1 @ evs) = [] \<and> stored (evs1 @ evs) = [] \<and>
       constructed (evs1 @ evs) = x # ss' \<and>
       layout q' xs' ys' (before_head q) ls (ss @ x # ss') \<and>
       path (memory q') (Some (hd ss)) (ss @ x # ss') None"
      using ih(1-8) s(1-5) c1 Cons.prems(2) by simp
    with tw cr fr' show ?thesis by blast
  qed
qed

lemma push_range_summary:
  assumes lay: "layout q xs ys (before_head q) ls []"
  shows "\<exists>r q' xs' ys' ls' evs.
       push_range vs q = Some (r, q') \<and> before_head q' = before_head q \<and>
       trace q' = trace q @ evs \<and> stored evs = [] \<and>
       layout q' xs' ys' (before_head q) ls' [] \<and>
       length (constructed evs) \<le> length (takeWhile (\<lambda>v. v \<noteq> None) vs) \<and>
       (case r of
          Inl e \<Rightarrow> (e = ctor_throw \<and>
                      length (constructed evs) = length (takeWhile (\<lambda>v. v \<noteq> None) vs) \<or>
                    e = bad_alloc \<and> avail (alloc q) \<le> length (constructed evs)) \<and>
                   vs \<noteq> [] \<and> ls' = ls \<and> tail q' = tail q \<and>
                   (\<forall>a\<in>set (before_head q # ls). memory q' a = memory q a) \<and>
                   destroyed evs = constructed evs \<and>
                   set (constructed evs) \<subseteq> set (deallocated evs) \<and>
                   set (constructed evs) \<inter> dom (memory q') = {}
        | Inr u \<Rightarrow> None \<notin> set vs \<and> ls' = ls @ constructed evs \<and> destroyed evs = [] \<and>
                   length (constructed evs) = length vs \<and> (vs = [] \<longrightarrow> q' = q))"
proof (cases vs)
  case Nil
  with lay show ?thesis
    by (intro exI[of _ "Inr ()"] exI[of _ q] exI[of _ xs] exI[of _ ys] exI[of _ ls] exI[of _ "[]"])
      (simp add: push_range_def)
next
  case (Cons v rest)
  obtain r1 q1 where mk: "make_node v q = (r1, q1)" by (cases "make_node v q")
  from make_node_summary[OF lay mk] obtain xs1 ys1 evs1 where
    s: "before_head q1 = before_head q" "tail q1 = tail q" "trace q1 = trace q @ evs1"
       "destroyed evs1 = []" "stored evs1 = []"
       "avail (alloc q1) + length (allocated evs1) = avail (alloc q) + length (deallocated evs1)"
       "length (allocated evs1) \<le> 1"
    and c: "case r1 of
         Inl e \<Rightarrow> (e = ctor_throw \<and> v = None \<or>
                   e = bad_alloc \<and> xs @ ys = [] \<and> avail (alloc q) = 0) \<and>
                  memory q1 = memory q \<and> layout q1 xs1 ys1 (before_head q) ls [] \<and>
                  xs1 @ ys1 = xs @ ys \<and> constructed evs1 = []
       | Inr x \<Rightarrow> (\<exists>w. v = Some w \<and>
                       memory q1 = (memory q)(x \<mapsto> \<lparr>data = Some w, next = None\<rparr>)) \<and>
                  layout q1 xs1 ys1 (before_head q) ls ([] @ [x]) \<and>
                  xs1 @ ys1 = tl (xs @ ys) \<and> constructed evs1 = [x] \<and> deallocated evs1 = []"
    by blast
  show ?thesis
  proof (cases r1)
    case (Inl e)
    with mk Cons have "push_range vs q = Some (Inl e, q1)" by (simp add: push_range_def)
    with Inl c s Cons show ?thesis
      by (intro exI[of _ "Inl e"] exI[of _ q1] exI[of _ xs1] exI[of _ ys1] exI[of _ ls] exI[of _ evs1]) auto
  next
    case (Inr h)
    with c obtain w where w: "v = Some w"
      and m1: "memory q1 = (memory q)(h \<mapsto> \<lparr>data = Some w, next = None\<rparr>)"
      and l1: "layout q1 xs1 ys1 (before_head q1) ls [h]"
      and c1: "constructed evs1 = [h]" and de1: "deallocated evs1 = []"
      using s(1) by auto
    have av: "avail (alloc q) \<le> Suc (avail (alloc q1))"
      using s(6,7) de1 by simp
    from l1 lay have hn: "h \<notin> set (before_head q # ls)" by (auto simp: layout_def s(1))
    have p1: "path (memory q1) (Some (hd [h])) [h] None" by (simp add: m1)
    obtain r2 q2 where sg: "stage rest (last [h]) q1 = (r2, q2)" by (cases "stage rest (last [h]) q1")
    from stage_summary[OF l1 _ p1 sg] obtain xs2 ys2 ss' evs2 where
      s2: "before_head q2 = before_head q1" "tail q2 = tail q1" "trace q2 = trace q1 @ evs2"
       "destroyed evs2 = []" "stored evs2 = []" "constructed evs2 = ss'"
      and l2: "layout q2 xs2 ys2 (before_head q1) ls ([h] @ ss')"
      and p2: "path (memory q2) (Some (hd [h])) ([h] @ ss') None"
      and f2: "\<forall>a\<in>set (before_head q1 # ls). memory q2 a = memory q1 a"
      and tk: "length ss' \<le> length (takeWhile (\<lambda>v. v \<noteq> None) rest)"
      and c2: "case r2 of
          Inl e \<Rightarrow> e = ctor_throw \<and> length ss' = length (takeWhile (\<lambda>v. v \<noteq> None) rest) \<or>
                   e = bad_alloc \<and> avail (alloc q1) \<le> length ss'
        | Inr t \<Rightarrow> t = last ([h] @ ss') \<and> None \<notin> set rest \<and> length ss' = length rest"
      by blast
    have fr: "memory q2 a = memory q a" if "a \<in> set (before_head q # ls)" for a
      using that f2 hn by (auto simp: s(1) m1)
    show ?thesis
    proof (cases r2)
      case (Inl e)
      with c2 have e0: "e = ctor_throw \<and> length ss' = length (takeWhile (\<lambda>v. v \<noteq> None) rest) \<or>
                        e = bad_alloc \<and> avail (alloc q1) \<le> length ss'" by simp
      then have e: "e \<noteq> undefined_behaviour" by auto
      from e0 av w Cons have e1: "e = ctor_throw \<and>
                        length (h # ss') = length (takeWhile (\<lambda>v. v \<noteq> None) vs) \<or>
                        e = bad_alloc \<and> avail (alloc q) \<le> length (h # ss')"
        by auto
      let ?q' = "release_all (h # ss') q2"
      from l2 have d2: "distinct (h # ss')" and lv: "\<forall>a\<in>set (h # ss'). live (memory q2) a"
        by (auto simp: layout_def)
      from p2 have "path (memory q2) (Some h) (h # ss') None" by simp
      from destroy_chain_path[OF this d2 lv]
      have "push_range vs q = Some (Inl e, ?q')"
        using mk Cons \<open>r1 = Inr h\<close> sg Inl e by (simp add: push_range_def)
      moreover from l2 have "layout ?q' xs2 ys2 (before_head q) ls []"
        using layout_release[of q2 xs2 ys2 "before_head q" ls "[]" "h # ss'"] by (simp add: s(1))
      moreover have "trace ?q' = trace q @ (evs1 @ evs2 @ release_events (h # ss'))"
        by (simp add: release_all_fields s s2 del: release_all.simps)
      moreover have "\<forall>a\<in>set (before_head q # ls). memory ?q' a = memory q a"
      proof
        fix a assume a: "a \<in> set (before_head q # ls)"
        with l2 have "a \<notin> set (h # ss')" by (auto simp: layout_def s(1))
        with fr[OF a] show "memory ?q' a = memory q a"
          by (simp add: release_all_fields del: release_all.simps)
      qed
      moreover have "set (h # ss') \<inter> dom (memory ?q') = {}"
        by (auto simp: release_all_fields simp del: release_all.simps)
      ultimately have "push_range vs q = Some (Inl e, ?q') \<and> before_head ?q' = before_head q \<and>
         trace ?q' = trace q @ (evs1 @ evs2 @ release_events (h # ss')) \<and>
         stored (evs1 @ evs2 @ release_events (h # ss')) = [] \<and>
         layout ?q' xs2 ys2 (before_head q) ls [] \<and>
         length (constructed (evs1 @ evs2 @ release_events (h # ss')))
           \<le> length (takeWhile (\<lambda>v. v \<noteq> None) vs) \<and>
         (case (Inl e :: error + unit) of
            Inl e \<Rightarrow> (e = ctor_throw \<and>
                      length (constructed (evs1 @ evs2 @ release_events (h # ss'))) =
                        length (takeWhile (\<lambda>v. v \<noteq> None) vs) \<or>
                      e = bad_alloc \<and>
                      avail (alloc q) \<le> length (constructed (evs1 @ evs2 @ release_events (h # ss')))) \<and>
                   vs \<noteq> [] \<and> ls = ls \<and> tail ?q' = tail q \<and>
                   (\<forall>a\<in>set (before_head q # ls). memory ?q' a = memory q a) \<and>
                   destroyed (evs1 @ evs2 @ release_events (h # ss')) =
                     constructed (evs1 @ evs2 @ release_events (h # ss')) \<and>
                   set (constructed (evs1 @ evs2 @ release_events (h # ss')))
                     \<subseteq> set (deallocated (evs1 @ evs2 @ release_events (h # ss'))) \<and>
                   set (constructed (evs1 @ evs2 @ release_events (h # ss'))) \<inter> dom (memory ?q') = {}
          | Inr u \<Rightarrow> None \<notin> set vs \<and> ls = ls @ constructed (evs1 @ evs2 @ release_events (h # ss')) \<and>
                   destroyed (evs1 @ evs2 @ release_events (h # ss')) = [] \<and>
                   length (constructed (evs1 @ evs2 @ release_events (h # ss'))) = length vs \<and>
                   (vs = [] \<longrightarrow> ?q' = q))"
        using e1 s(1-5) s2 c1 Cons tk w
        by (auto simp: release_all_fields simp del: release_all.simps)
      then show ?thesis by blast
    next
      case (Inr t)
      with c2 have t: "t = last (h # ss')" and nn: "None \<notin> set rest"
        and len: "length ss' = length rest" by simp_all
      from layout_tail_in(3)[OF l2] obtain nt where nt: "memory q2 (tail q2) = Some nt" by blast
      let ?q' = "q2\<lparr>memory := (memory q2)(tail q2 \<mapsto> nt\<lparr>next := Some h\<rparr>), tail := last (h # ss')\<rparr>"
      have "push_range vs q = Some (Inr (), ?q')"
        using mk Cons \<open>r1 = Inr h\<close> sg Inr nt t by (simp add: push_range_def store_next_def)
      moreover from layout_link[OF l2 _ _ nt] p2
      have "layout ?q' xs2 ys2 (before_head q) (ls @ h # ss') []" by (simp add: s(1))
      ultimately show ?thesis using s(1-5) s2 c1 Cons nn len w tk
        by (intro exI[of _ "Inr ()"] exI[of _ ?q'] exI[of _ xs2] exI[of _ ys2] exI[of _ "ls @ h # ss'"] exI[of _ "evs1 @ evs2"]) simp
    qed
  qed
qed

subsection \<open>Every reachable state has the layout; destruction\<close>

lemma reachable_layout:
  "reachable q \<Longrightarrow> \<exists>xs ys ls. layout q xs ys (before_head q) ls []"
proof (induction rule: reachable.induct)
  case (r_ctor a q)
  then show ?case using ctor_layout by blast
next
  case (r_emplace q args r q')
  then obtain xs ys ls where lay: "layout q xs ys (before_head q) ls []" by blast
  from emplace_summary[OF lay r_emplace.hyps(2)] show ?case
    by (cases r) auto
next
  case (r_push_range q vs r q')
  then obtain xs ys ls where lay: "layout q xs ys (before_head q) ls []" by blast
  from push_range_summary[OF lay, of vs] r_push_range.hyps(2) show ?case
    by auto
next
  case (r_pop q out rb out' q')
  then obtain xs ys ls where lay: "layout q xs ys (before_head q) ls []" by blast
  show ?case
  proof (cases ls)
    case Nil
    with lay pop_empty[of q xs ys "[]" out] r_pop.hyps(2) show ?thesis by auto
  next
    case (Cons l ls')
    with lay pop_front[of q xs ys l ls' "[]" out] r_pop.hyps(2) show ?thesis by auto
  qed
next
  case (r_clear q r q')
  then obtain xs ys ls where lay: "layout q xs ys (before_head q) ls []" by blast
  from clear_layout[OF lay] obtain q'' where
    "clear q = Some (Inr (), q'')"
    "layout q'' xs (ys @ butlast (before_head q # ls)) (before_head q'') [] []"
    by blast
  with r_clear.hyps(2) show ?case by auto
next
  case (r_consume_all q f u r u' q')
  then obtain xs ys ls where lay: "layout q xs ys (before_head q) ls []" by blast
  from consume_all_layout[OF lay, of f u] r_consume_all.hyps(2) show ?case by auto
qed

lemma dealloc_all_fields:
  "trace (dealloc_all zs q) = trace q @ map Deallocate zs"
  "memory (dealloc_all zs q) = (\<lambda>a. if a \<in> set zs then None else memory q a)"
  by (induction zs arbitrary: q; simp add: fun_eq_iff)+

lemma dealloc_cached_path:
  "path (memory q) p zs e \<Longrightarrow> distinct zs \<Longrightarrow> e \<notin> Some ` set zs \<Longrightarrow>
     dealloc_cached e p q = Some (Inr e, dealloc_all zs q)"
proof (induction zs arbitrary: p q)
  case Nil
  then show ?case by (subst dealloc_cached.simps) simp
next
  case (Cons x zs)
  from Cons.prems obtain n where p: "p = Some x" and n: "memory q x = Some n"
    and pn: "path (memory q) (next n) zs e"
    by (auto split: option.splits)
  let ?q1 = "q\<lparr>alloc := (alloc q)\<lparr>avail := Suc (avail (alloc q))\<rparr>,
               memory := (memory q)(x := None),
               trace := trace q @ [Deallocate x]\<rparr>"
  have f: "deallocate x q = Inr ?q1" using n by (simp add: deallocate_def)
  from Cons.prems(2) have xz: "x \<notin> set zs" by simp
  with pn have 1: "path (memory ?q1) (next n) zs e" by (simp add: path_upd_other)
  from Cons.prems have 2: "distinct zs" and 3: "e \<notin> Some ` set zs" and 4: "p \<noteq> e" using p by auto
  from Cons.IH[OF 1 2 3] p n f 4 show ?case
    by (subst dealloc_cached.simps) (simp add: advance_def load_next_def)
qed

lemma map_Deallocate_simps [simp]:
  "allocated (map Deallocate zs) = []"
  "deallocated (map Deallocate zs) = zs"
  "constructed (map Deallocate zs) = []"
  "destroyed (map Deallocate zs) = []"
  "stored (map Deallocate zs) = []"
  by (induction zs; simp)+

lemma dtor_layout:
  assumes lay: "layout q xs ys (before_head q) ls []"
  shows "\<exists>q'. spsc_queue_dtor q = Some (Inr (), q') \<and>
           trace q' = trace q @ map Deallocate (xs @ ys @ [before_head q]) @ release_events ls \<and>
           memory q' = Map.empty \<and>
           length (allocated (trace q')) = length (deallocated (trace q')) \<and>
           length (constructed (trace q')) = length (destroyed (trace q'))"
proof -
  let ?b = "before_head q"
  let ?e = "case ls of [] \<Rightarrow> None | l # ls' \<Rightarrow> Some l"
  let ?pre = "xs @ ys @ [?b]"
  from lay have p: "path (memory q) (cache_head q) (?pre @ ls) None"
    and d: "distinct (?pre @ ls)" and dm: "dom (memory q) = set (?pre @ ls)"
    and lv: "\<forall>a\<in>set ls. live (memory q) a"
    and ca: "length (allocated (trace q)) = length (deallocated (trace q)) + length (?pre @ ls)"
    and cc: "length (constructed (trace q)) = length (destroyed (trace q)) + length ls"
    by (simp_all add: layout_def)
  from p obtain r where p1: "path (memory q) (cache_head q) ?pre r" and p2: "path (memory q) r ls None"
    unfolding path_append by blast
  from p2 have r: "r = ?e" by (cases ls) auto
  from d have d1: "distinct ?pre" and d2: "distinct ls" and dj: "set ?pre \<inter> set ls = {}"
    by auto
  from dj have en: "?e \<notin> Some ` set ?pre" by (cases ls) auto
  let ?q1 = "dealloc_all ?pre q"
  from dealloc_cached_path[OF p1[unfolded r] d1 en]
  have dc: "dealloc_cached ?e (cache_head q) q = Some (Inr ?e, ?q1)" .
  have m1: "memory ?q1 = (\<lambda>a. if a \<in> set ?pre then None else memory q a)"
    by (rule dealloc_all_fields)
  have "path (memory ?q1) ?e ls None"
    unfolding m1 using p2[unfolded r] dj by (subst path_cong[where m = "memory q"]) auto
  moreover have "\<forall>a\<in>set ls. live (memory ?q1) a"
    unfolding m1 using lv dj by (auto simp: live_def)
  ultimately have "destroy_chain ?e ?q1 = Some (Inr (), release_all ls ?q1)"
    using d2 by (intro destroy_chain_path)
  with dc layout_head[OF lay]
  have "spsc_queue_dtor q = Some (Inr (), release_all ls ?q1)"
    by (simp add: spsc_queue_dtor_def)
  moreover have tr: "trace (release_all ls ?q1) = trace q @ map Deallocate ?pre @ release_events ls"
    by (simp add: release_all_fields dealloc_all_fields)
  moreover have "memory (release_all ls ?q1) = Map.empty"
  proof
    fix a
    have "memory q a = None" if "a \<notin> set ?pre" "a \<notin> set ls"
    proof -
      from that dm have "a \<notin> dom (memory q)" by simp
      then show ?thesis by (simp add: domIff)
    qed
    then show "memory (release_all ls ?q1) a = None"
      by (simp only: release_all_fields m1) auto
  qed
  moreover have "length (allocated (trace (release_all ls ?q1))) =
                 length (deallocated (trace (release_all ls ?q1)))"
    unfolding tr using ca by simp
  moreover have "length (constructed (trace (release_all ls ?q1))) =
                 length (destroyed (trace (release_all ls ?q1)))"
    unfolding tr using cc by simp
  ultimately show ?thesis by blast
qed

lemmas prim_defs = allocate_def deallocate_def construct_data_def destroy_def store_next_def
  load_next_def load_data_def store_before_head_def advance_def head_def

subsection \<open>The concrete runs\<close>

lemma ctor_fresh: "spsc_queue_ctor \<lparr>next_addr = 0, avail = 4\<rparr> = Inr fresh_queue"
  by (simp add: spsc_queue_ctor_def fresh_queue_def)

lemma one_pushed_eq: "one_pushed =
     \<lparr>tail = 1, before_head = 0, cache_tail = 0, cache_head = Some 0,
      alloc = \<lparr>next_addr = 2, avail = 2\<rparr>,
      memory = [0 \<mapsto> \<lparr>data = None, next = Some 1\<rparr>, 1 \<mapsto> \<lparr>data = Some 7, next = None\<rparr>],
      trace = [Allocate 0, Allocate 1, Construct 1]\<rparr>"
  by (simp add: one_pushed_def push_def emplace_def make_node_def fresh_queue_def prim_defs Let_def fun_upd_twist)

lemma two_pushed_eq: "two_pushed =
     \<lparr>tail = 2, before_head = 0, cache_tail = 0, cache_head = Some 0,
      alloc = \<lparr>next_addr = 3, avail = 1\<rparr>,
      memory = [0 \<mapsto> \<lparr>data = None, next = Some 1\<rparr>, 1 \<mapsto> \<lparr>data = Some 7, next = Some 2\<rparr>,
                2 \<mapsto> \<lparr>data = Some 8, next = None\<rparr>],
      trace = [Allocate 0, Allocate 1, Construct 1, Allocate 2, Construct 2]\<rparr>"
  by (simp add: two_pushed_def one_pushed_eq push_def emplace_def make_node_def prim_defs Let_def fun_upd_twist)

lemma one_popped_eq: "pop 0 two_pushed = (Inr True, 7,
     \<lparr>tail = 2, before_head = 1, cache_tail = 0, cache_head = Some 0,
      alloc = \<lparr>next_addr = 3, avail = 1\<rparr>,
      memory = [0 \<mapsto> \<lparr>data = None, next = Some 1\<rparr>, 1 \<mapsto> \<lparr>data = None, next = Some 2\<rparr>,
                2 \<mapsto> \<lparr>data = Some 8, next = None\<rparr>],
      trace = [Allocate 0, Allocate 1, Construct 1, Allocate 2, Construct 2, Destroy 1, StoreBeforeHead 1]\<rparr>)"
  by (simp add: two_pushed_eq pop_def prim_defs Let_def fun_upd_twist)

subsection \<open>The claims\<close>

lemma layout_chain_from_head:
  assumes "layout q xs ys b ls ss"
  shows "path (memory q) (Some b) (b # ls) None"
proof -
  from assms have "path (memory q) (cache_head q) ((xs @ ys) @ b # ls) None"
    by (simp add: layout_def)
  then obtain r where "path (memory q) r (b # ls) None" unfolding path_append by blast
  then show ?thesis by simp
qed

lemma layout_empty_iff:
  assumes "layout q xs ys b ls ss"
  shows "(b = tail q) = (ls = [])"
proof (cases ls)
  case Nil
  with assms show ?thesis by (simp add: layout_def)
next
  case (Cons l ls')
  from assms have "tail q = last ls" "b \<notin> set ls" using Cons by (auto simp: layout_def)
  moreover have "last ls \<in> set ls" using Cons by simp
  ultimately show ?thesis using Cons by auto
qed

text \<open>
  Claim C8. A range push of an empty range (\<^verbatim>\<open>first == last\<close>) is a no-op: it returns at
  once with the state unchanged, so nothing is allocated, constructed or published, and
  the trace (hence every allocator call count) is the same.
\<close>

theorem push_range_empty: "push_range [] q = Some (Inr (), q)"
  by (simp add: push_range_def)

text \<open>
  Claim C2. In every reachable state \<open>pop\<close> returns without error, and it returns false
  exactly when \<^verbatim>\<open>before_head->next\<close> is null. When it returns false, the out-parameter
  and the state are unchanged. When it returns true, \<^verbatim>\<open>before_head->next\<close> is a node
  \<open>x\<close> holding a live value, the out-parameter receives that value, the data of \<open>x\<close> is
  destroyed in place, and \<open>x\<close> is stored into \<open>before_head\<close>; nothing else changes.
\<close>

theorem pop_spec:
  assumes "reachable q" and "pop out q = (r, out', q')"
  shows "(r = Inr False \<or> r = Inr True) \<and>
         ((r = Inr False) = (load_next (before_head q) q = Inr None)) \<and>
         (r = Inr False \<longrightarrow> out' = out \<and> q' = q) \<and>
         (r = Inr True \<longrightarrow>
            (\<exists>x n. load_next (before_head q) q = Inr (Some x) \<and>
                   memory q x = Some n \<and> data n = Some out' \<and>
                   q' = store_before_head x
                          (q\<lparr>memory := (memory q)(x \<mapsto> n\<lparr>data := None\<rparr>),
                             trace := trace q @ [Destroy x]\<rparr>)))"
proof -
  from reachable_layout[OF assms(1)] obtain xs ys ls where
    lay: "layout q xs ys (before_head q) ls []" by blast
  show ?thesis
  proof (cases ls)
    case Nil
    with lay pop_empty[of q xs ys "[]" out] layout_next[OF lay] assms(2) show ?thesis
      by simp
  next
    case (Cons l ls')
    with lay pop_front[of q xs ys l ls' "[]" out] layout_next[OF lay] assms(2) show ?thesis
      by auto
  qed
qed

text \<open>
  The theorem at the queue holding 7 and 8: \<open>pop\<close> returns true with 7.
\<close>

theorem pop_spec_witness:
  "reachable two_pushed \<and> pop 0 two_pushed = (Inr True, 7, one_popped) \<and>
   (\<exists>x n. load_next (before_head two_pushed) two_pushed = Inr (Some x) \<and>
          memory two_pushed x = Some n \<and> data n = Some 7 \<and>
          one_popped = store_before_head x
                         (two_pushed\<lparr>memory := (memory two_pushed)(x \<mapsto> n\<lparr>data := None\<rparr>),
                                      trace := trace two_pushed @ [Destroy x]\<rparr>))"
proof -
  have r: "reachable two_pushed"
    unfolding two_pushed_def one_pushed_def push_def
    by (intro r_emplace[OF _ surjective_pairing] r_ctor[OF ctor_fresh])
  have p: "pop 0 two_pushed = (Inr True, 7, one_popped)"
    by (simp add: one_popped_def one_popped_eq)
  from pop_spec[OF r p] r p show ?thesis
    by simp
qed

text \<open>
  Claim C6. In every reachable state \<open>empty\<close> returns true exactly when
  \<open>before_head = tail\<close>, which holds exactly when \<^verbatim>\<open>before_head->next\<close> is null.
  The nodes after \<open>before_head\<close> up to \<open>tail\<close> are the live ones, \<open>empty\<close> is true exactly
  when there is none, and that is exactly when every value constructed into a node so far
  has been destroyed: the producer has published nothing that is not yet consumed.
\<close>

theorem empty_spec:
  assumes "reachable q"
  shows "empty q = Inr (before_head q = tail q) \<and>
         ((before_head q = tail q) = (load_next (before_head q) q = Inr None)) \<and>
         empty q = Inr (length (constructed (trace q)) = length (destroyed (trace q))) \<and>
         (\<exists>ls. path (memory q) (Some (before_head q)) (before_head q # ls) None \<and>
               last (before_head q # ls) = tail q \<and>
               (\<forall>a\<in>set ls. live (memory q) a) \<and>
               empty q = Inr (ls = []))"
proof -
  from reachable_layout[OF assms(1)] obtain xs ys ls where
    lay: "layout q xs ys (before_head q) ls []" by blast
  have e: "empty q = Inr (ls = [])"
    using layout_head[OF lay] by (cases ls) (simp_all add: empty_def)
  have n: "(load_next (before_head q) q = Inr None) = (ls = [])"
    using layout_next[OF lay] by (cases ls) simp_all
  from lay have c: "length (constructed (trace q)) = length (destroyed (trace q)) + length ls"
    and t: "tail q = last (before_head q # ls)" and lv: "\<forall>a\<in>set ls. live (memory q) a"
    by (simp_all add: layout_def)
  from c have c': "(length (constructed (trace q)) = length (destroyed (trace q))) = (ls = [])"
    by auto
  have "\<exists>ls. path (memory q) (Some (before_head q)) (before_head q # ls) None \<and>
               last (before_head q # ls) = tail q \<and>
               (\<forall>a\<in>set ls. live (memory q) a) \<and>
               empty q = Inr (ls = [])"
    using layout_chain_from_head[OF lay] t lv e by metis
  with e n c' layout_empty_iff[OF lay] show ?thesis by simp
qed

text \<open>
  The theorem at the fresh queue, which is empty, and at the queue holding 7 and 8, which
  is not.
\<close>

theorem empty_spec_witness:
  "reachable fresh_queue \<and> empty fresh_queue = Inr True \<and>
   before_head fresh_queue = tail fresh_queue \<and>
   reachable two_pushed \<and> empty two_pushed = Inr False \<and>
   before_head two_pushed \<noteq> tail two_pushed \<and>
   length (constructed (trace two_pushed)) = 2 \<and> length (destroyed (trace two_pushed)) = 0"
proof -
  have r0: "reachable fresh_queue" by (rule r_ctor[OF ctor_fresh])
  have r: "reachable two_pushed"
    unfolding two_pushed_def one_pushed_def push_def
    by (intro r_emplace[OF _ surjective_pairing] r_ctor[OF ctor_fresh])
  from empty_spec[OF r0] empty_spec[OF r] r0 r show ?thesis
    by (simp add: two_pushed_eq fresh_queue_def)
qed

text \<open>
  Claim C10. When \<open>emplace\<close> takes the node from the cache (the snapshot \<open>cache_tail\<close>, after
  its refill from \<open>before_head\<close>, differs from \<open>cache_head\<close>) and the constructor of \<open>T\<close>
  throws, the exception propagates and the state is the one before the call except for
  the producer's private snapshot \<open>cache_tail\<close>, which holds its refilled value:
  \<open>cache_head\<close> is not advanced, the memory (so the chain and the data of the cached node,
  which stays unconstructed), \<open>tail\<close>, \<open>before_head\<close>, the allocator and the trace are
  unchanged.
\<close>

theorem emplace_throw_cached:
  assumes "reachable q"
    and "Some (cache_tail q) \<noteq> cache_head q \<or> Some (before_head q) \<noteq> cache_head q"
  shows "emplace None q =
           (Inl ctor_throw,
            q\<lparr>cache_tail := (if Some (cache_tail q) = cache_head q then before_head q
                             else cache_tail q)\<rparr>) \<and>
         (\<exists>x n. cache_head q = Some x \<and> memory q x = Some n \<and> data n = None)"
proof -
  from reachable_layout[OF assms(1)] obtain xs ys ls where
    lay: "layout q xs ys (before_head q) ls []" by blast
  have "xs @ ys \<noteq> []"
  proof
    assume "xs @ ys = []"
    with lay have "cache_head q = Some (before_head q)" "cache_tail q = before_head q"
      by (simp_all add: layout_def)
    with assms(2) show False by simp
  qed
  then obtain c cs where cs: "xs @ ys = c # cs" by (cases "xs @ ys") auto
  from make_node_cached[OF lay cs, of None] layout_cache_facts(1,2)[OF lay cs]
  show ?thesis by (auto simp: emplace_def refill_def)
qed

text \<open>
  Claim C5. In every reachable state the memory is one chain from \<open>cache_head\<close>: first
  the nodes \<open>pre\<close> up to and including \<open>before_head\<close>, none of them live, then the live
  nodes \<open>ls\<close>. The destructor returns; it deallocates the nodes of \<open>pre\<close> without destroying
  their data, then destroys and deallocates each node of \<open>ls\<close>, once each (the nodes are
  distinct). Afterwards no node is left allocated, the trace holds as many allocations
  as deallocations, and as many constructions as destructions.
\<close>

theorem dtor_spec:
  assumes "reachable q"
  shows "\<exists>pre ls q'.
           path (memory q) (cache_head q) (pre @ ls) None \<and>
           pre \<noteq> [] \<and> last pre = before_head q \<and>
           distinct (pre @ ls) \<and> dom (memory q) = set (pre @ ls) \<and>
           (\<forall>a\<in>set pre. \<not> live (memory q) a) \<and> (\<forall>a\<in>set ls. live (memory q) a) \<and>
           spsc_queue_dtor q = Some (Inr (), q') \<and>
           trace q' = trace q @ map Deallocate pre @ release_events ls \<and>
           memory q' = Map.empty \<and>
           length (allocated (trace q')) = length (deallocated (trace q')) \<and>
           length (constructed (trace q')) = length (destroyed (trace q'))"
proof -
  from reachable_layout[OF assms(1)] obtain xs ys ls where
    lay: "layout q xs ys (before_head q) ls []" by blast
  let ?pre = "xs @ ys @ [before_head q]"
  from dtor_layout[OF lay] obtain q' where
    d: "spsc_queue_dtor q = Some (Inr (), q')"
       "trace q' = trace q @ map Deallocate ?pre @ release_events ls"
       "memory q' = Map.empty"
       "length (allocated (trace q')) = length (deallocated (trace q'))"
       "length (constructed (trace q')) = length (destroyed (trace q'))"
    by blast
  from lay have "path (memory q) (cache_head q) (?pre @ ls) None"
    "distinct (?pre @ ls)" "dom (memory q) = set (?pre @ ls)"
    "\<forall>a\<in>set ?pre. \<not> live (memory q) a" "\<forall>a\<in>set ls. live (memory q) a"
    by (simp_all add: layout_def)
  moreover have "?pre \<noteq> []" "last ?pre = before_head q" by simp_all
  ultimately show ?thesis using d by blast
qed

text \<open>
  Claim C3, as amended. \<open>clear\<close> destroys the data of every node after \<open>before_head\<close> and
  then stores into \<open>before_head\<close> exactly once, at the end. \<open>consume_all\<close> does not: for
  each node it drains it invokes the function, destroys the data and stores that node
  into \<open>before_head\<close> before it goes on to the next node, so it stores once per drained
  node and not at all on an empty queue. When the function throws at a node, the nodes
  before it have been stored and the call stops there.
\<close>

theorem drain_stores:
  assumes "reachable q"
  shows "\<exists>ls. path (memory q) (Some (before_head q)) (before_head q # ls) None \<and>
           (\<exists>q1. clear q = Some (Inr (), q1) \<and>
                 trace q1 = trace q @ map Destroy ls @
                              [StoreBeforeHead (last (before_head q # ls))]) \<and>
           (\<exists>r u' q2 ds ls'. consume_all f u q = Some (r, u', q2) \<and> ls = ds @ ls' \<and>
                 (r = Inr () \<and> ls' = [] \<and> trace q2 = trace q @ consume_events ds \<or>
                  r = Inl fn_throw \<and> ls' \<noteq> [] \<and>
                    trace q2 = trace q @ consume_events ds @ [Invoke (hd ls')]))"
proof -
  from reachable_layout[OF assms(1)] obtain xs ys ls where
    lay: "layout q xs ys (before_head q) ls []" by blast
  from clear_layout[OF lay] obtain q1 where
    "clear q = Some (Inr (), q1)"
    "trace q1 = trace q @ map Destroy ls @ [StoreBeforeHead (last (before_head q # ls))]"
    by blast
  moreover from consume_all_layout[OF lay, of f u] obtain r u' q2 ds ls' where
    "consume_all f u q = Some (r, u', q2)" "ls = ds @ ls'"
    "r = Inr () \<and> ls' = [] \<and> trace q2 = trace q @ consume_events ds \<or>
     r = Inl fn_throw \<and> ls' \<noteq> [] \<and> trace q2 = trace q @ consume_events ds @ [Invoke (hd ls')]"
    by blast
  ultimately show ?thesis using layout_chain_from_head[OF lay] by blast
qed

text \<open>
  The theorem at the queue holding 7 and 8, with a function that collects the values.
\<close>

theorem drain_stores_witness:
  "reachable two_pushed \<and>
   (\<exists>ls. path (memory two_pushed) (Some (before_head two_pushed)) (before_head two_pushed # ls) None \<and>
           (\<exists>q1. clear two_pushed = Some (Inr (), q1) \<and>
                 trace q1 = trace two_pushed @ map Destroy ls @
                              [StoreBeforeHead (last (before_head two_pushed # ls))]) \<and>
           (\<exists>r u' q2 ds ls'. consume_all collect [] two_pushed = Some (r, u', q2) \<and> ls = ds @ ls' \<and>
                 (r = Inr () \<and> ls' = [] \<and> trace q2 = trace two_pushed @ consume_events ds \<or>
                  r = Inl fn_throw \<and> ls' \<noteq> [] \<and>
                    trace q2 = trace two_pushed @ consume_events ds @ [Invoke (hd ls')])))"
proof -
  have r: "reachable two_pushed"
    unfolding two_pushed_def one_pushed_def push_def
    by (intro r_emplace[OF _ surjective_pairing] r_ctor[OF ctor_fresh])
  from drain_stores[OF r, of collect "[]"] r show ?thesis by blast
qed

text \<open>
  The claim as the specification states it (one store into \<open>before_head\<close>, at the end of
  \<open>consume_all\<close>) fails on a queue of two elements: the call stores twice, and the first
  store happens before the function is invoked on the second value.
\<close>

theorem consume_all_stores_counterexample:
  "consume_all collect [] two_pushed = Some (Inr (), [7, 8], two_consumed) \<and>
   drop (length (trace two_pushed)) (trace two_consumed) =
     [Invoke 1, Destroy 1, StoreBeforeHead 1, Invoke 2, Destroy 2, StoreBeforeHead 2] \<and>
   stored (drop (length (trace two_pushed)) (trace two_consumed)) = [1, 2]"
  by (simp add: two_pushed_eq two_consumed_def consume_all_def consume_loop.simps collect_def
      prim_defs Let_def fun_upd_twist)

lemma layout_tail_next:
  assumes "layout q xs ys b ls ss"
  shows "load_next (tail q) q = Inr None"
proof -
  from assms have p: "path (memory q) (cache_head q) (xs @ ys @ b # ls) None"
    and t: "tail q = last (b # ls)" by (simp_all add: layout_def)
  have "xs @ ys @ b # ls = (xs @ ys @ butlast (b # ls)) @ [tail q]"
    unfolding t by (simp only: append_assoc append_butlast_last_id[of "b # ls", simplified])
      (metis append_butlast_last_id list.distinct(1))
  with p have "path (memory q) (cache_head q) ((xs @ ys @ butlast (b # ls)) @ [tail q]) None"
    by simp
  from path_last[OF this] show ?thesis by (auto simp: load_next_def)
qed

text \<open>
  Claim C4. When a range push is called in a reachable state with an element whose
  construction throws, an exception propagates: the constructor's, with exactly the
  elements before the first throwing one staged, or the allocator's, if an allocation
  fails first. The staged nodes are the ones constructed during the
  call; each of them is destroyed, is deallocated, and is no longer in memory. Nothing is
  stored into \<open>before_head\<close>, \<open>tail\<close> is not moved, \<^verbatim>\<open>tail->next\<close> is still null, and
  every node from \<open>before_head\<close> to \<open>tail\<close> is as it was.
\<close>

theorem push_range_throw:
  assumes "reachable q" and "None \<in> set vs"
  shows "\<exists>e q' evs ls.
           push_range vs q = Some (Inl e, q') \<and>
           (e = ctor_throw \<and>
              length (constructed evs) = length (takeWhile (\<lambda>v. v \<noteq> None) vs) \<or>
            e = bad_alloc \<and> avail (alloc q) \<le> length (constructed evs)) \<and>
           length (constructed evs) \<le> length (takeWhile (\<lambda>v. v \<noteq> None) vs) \<and>
           trace q' = trace q @ evs \<and>
           destroyed evs = constructed evs \<and>
           set (constructed evs) \<subseteq> set (deallocated evs) \<and>
           set (constructed evs) \<inter> dom (memory q') = {} \<and>
           stored evs = [] \<and>
           tail q' = tail q \<and> before_head q' = before_head q \<and>
           path (memory q) (Some (before_head q)) (before_head q # ls) None \<and>
           last (before_head q # ls) = tail q \<and>
           (\<forall>a\<in>set (before_head q # ls). memory q' a = memory q a) \<and>
           load_next (tail q') q' = Inr None"
proof -
  from reachable_layout[OF assms(1)] obtain xs ys ls where
    lay: "layout q xs ys (before_head q) ls []" by blast
  from push_range_summary[OF lay, of vs] obtain r q' xs' ys' ls' evs where
    s: "push_range vs q = Some (r, q')" "before_head q' = before_head q"
       "trace q' = trace q @ evs" "stored evs = []"
       "layout q' xs' ys' (before_head q) ls' []"
       "length (constructed evs) \<le> length (takeWhile (\<lambda>v. v \<noteq> None) vs)"
    and c: "case r of
          Inl e \<Rightarrow> (e = ctor_throw \<and>
                      length (constructed evs) = length (takeWhile (\<lambda>v. v \<noteq> None) vs) \<or>
                    e = bad_alloc \<and> avail (alloc q) \<le> length (constructed evs)) \<and>
                   vs \<noteq> [] \<and> ls' = ls \<and> tail q' = tail q \<and>
                   (\<forall>a\<in>set (before_head q # ls). memory q' a = memory q a) \<and>
                   destroyed evs = constructed evs \<and>
                   set (constructed evs) \<subseteq> set (deallocated evs) \<and>
                   set (constructed evs) \<inter> dom (memory q') = {}
        | Inr u \<Rightarrow> None \<notin> set vs \<and> ls' = ls @ constructed evs \<and> destroyed evs = [] \<and>
                   length (constructed evs) = length vs \<and> (vs = [] \<longrightarrow> q' = q)"
    by blast
  from c assms(2) obtain e where r: "r = Inl e" by (cases r) auto
  from lay have t: "last (before_head q # ls) = tail q" by (simp add: layout_def)
  from layout_tail_next[OF s(5)] have "load_next (tail q') q' = Inr None" .
  with c r s t layout_chain_from_head[OF lay] show ?thesis
    by (intro exI[of _ e] exI[of _ q'] exI[of _ evs] exI[of _ ls]) simp
qed

lemma path_prefix:
  "path m p as None \<Longrightarrow> path m p fs (Some b) \<Longrightarrow> \<exists>rest. as = fs @ b # rest"
proof (induction fs arbitrary: p as)
  case Nil
  then show ?case by (cases as) auto
next
  case (Cons f fs)
  from Cons.prems obtain as' where as: "as = f # as'" by (cases as) auto
  from Cons.prems as obtain n where "m f = Some n" "path m (next n) as' None"
    "path m (next n) fs (Some b)"
    by (auto split: option.splits)
  from Cons.IH[OF this(2,3)] as show ?case by auto
qed

lemma takeWhile_until:
  "b \<notin> set u \<Longrightarrow> takeWhile (\<lambda>x. x \<noteq> b) (u @ b # v) = u"
  by (induction u) auto

lemma distinct_split_eq:
  assumes "distinct (u @ b # v)" and "u @ b # v = u' @ b # v'"
  shows "u = u'"
proof -
  from assms have "distinct (u' @ b # v')" by simp
  then have 1: "b \<notin> set u'" by simp
  from assms(1) have 2: "b \<notin> set u" by simp
  have "takeWhile (\<lambda>x. x \<noteq> b) (u @ b # v) = u"
    using 2 by (rule takeWhile_until)
  moreover have "takeWhile (\<lambda>x. x \<noteq> b) (u' @ b # v') = u'"
    using 1 by (rule takeWhile_until)
  ultimately show ?thesis using assms(2) by simp
qed

lemma layout_free_nodes:
  assumes "layout q xs ys b ls ss" and "path (memory q) (cache_head q) fs (Some b)"
  shows "fs = xs @ ys"
proof -
  from assms(1) have p: "path (memory q) (cache_head q) ((xs @ ys) @ b # ls) None"
    and d: "distinct ((xs @ ys) @ b # ls)" by (auto simp: layout_def)
  from path_prefix[OF p assms(2)] obtain rest where "(xs @ ys) @ b # ls = fs @ b # rest" by blast
  from distinct_split_eq[OF d this] show ?thesis by simp
qed

lemma push_all_cached:
  "layout q xs ys (before_head q) ls [] \<Longrightarrow> length vs \<le> length (xs @ ys) \<Longrightarrow>
     \<exists>q' xs' ys' ls'. push_all vs q = (Inr (), q') \<and>
        allocated (trace q') = allocated (trace q) \<and>
        layout q' xs' ys' (before_head q') ls' []"
proof (induction vs arbitrary: q xs ys ls)
  case Nil
  then show ?case by auto
next
  case (Cons v vs)
  obtain r q1 where em: "emplace (Some v) q = (r, q1)" by (cases "emplace (Some v) q")
  from Cons.prems(2) have ne: "xs @ ys \<noteq> []" by auto
  from emplace_summary[OF Cons.prems(1) em] ne obtain xs' ys' evs x where
    s: "before_head q1 = before_head q" "trace q1 = trace q @ evs" "allocated evs = []"
       "r = Inr ()" "layout q1 xs' ys' (before_head q) (ls @ [x]) []" "xs' @ ys' = tl (xs @ ys)"
    by (cases r) auto
  from s(6) Cons.prems(2) have len: "length vs \<le> length (xs' @ ys')" by simp
  from s(5) have "layout q1 xs' ys' (before_head q1) (ls @ [x]) []" by (simp add: s(1))
  from Cons.IH[OF this len] obtain q' xs2 ys2 ls2 where
    "push_all vs q1 = (Inr (), q')" "allocated (trace q') = allocated (trace q1)"
    "layout q' xs2 ys2 (before_head q') ls2 []"
    by blast
  with em s show ?case by (auto simp: push_def)
qed

text \<open>
  Claim C7. In every reachable state \<open>make_node\<close> leaves \<open>cache_tail\<close> refilled from
  \<open>before_head\<close> if it was equal to \<open>cache_head\<close>. If \<open>cache_tail\<close> then differs from
  \<open>cache_head\<close>, the node is the cached node \<open>cache_head\<close> points to: no allocation is
  recorded, and when the constructor succeeds the value is constructed in that node and
  \<open>cache_head\<close> is advanced to its \<open>next\<close>. Only otherwise does it allocate: the allocator
  fails, or one allocation of a fresh node is recorded. Consequently, when the chain from
  \<open>cache_head\<close> has at least \<open>length vs\<close> nodes before \<open>before_head\<close>, pushing the values
  \<open>vs\<close> succeeds and records no allocation.
\<close>

theorem node_acquisition:
  assumes "reachable q" and "make_node args q = (r, q')"
  shows "cache_tail q' = (if Some (cache_tail q) = cache_head q then before_head q
                          else cache_tail q) \<and>
         (if Some (cache_tail q') \<noteq> cache_head q
          then \<exists>x n. cache_head q = Some x \<and> memory q x = Some n \<and>
                 allocated (trace q') = allocated (trace q) \<and>
                 (case args of
                    None \<Rightarrow> r = Inl ctor_throw \<and> cache_head q' = cache_head q \<and>
                            memory q' = memory q \<and> trace q' = trace q
                  | Some v \<Rightarrow> r = Inr x \<and> cache_head q' = next n \<and>
                              memory q' = (memory q)(x \<mapsto> \<lparr>data = Some v, next = None\<rparr>) \<and>
                              trace q' = trace q @ [Construct x])
          else avail (alloc q) = 0 \<and> r = Inl bad_alloc \<and> q' = q \<or>
               0 < avail (alloc q) \<and> cache_head q' = cache_head q \<and>
               allocated (trace q') = allocated (trace q) @ [next_addr (alloc q)] \<and>
               (case args of
                  None \<Rightarrow> r = Inl ctor_throw \<and> memory q' = memory q \<and>
                          deallocated (trace q') = deallocated (trace q) @ [next_addr (alloc q)]
                | Some v \<Rightarrow> r = Inr (next_addr (alloc q)) \<and>
                            memory q' = (memory q)(next_addr (alloc q) \<mapsto>
                                           \<lparr>data = Some v, next = None\<rparr>))) \<and>
         (\<forall>fs vs. path (memory q) (cache_head q) fs (Some (before_head q)) \<and>
                  length vs \<le> length fs \<longrightarrow>
                  (\<exists>q''. push_all vs q = (Inr (), q'') \<and>
                         allocated (trace q'') = allocated (trace q)))"
proof -
  from reachable_layout[OF assms(1)] obtain xs ys ls where
    lay: "layout q xs ys (before_head q) ls []" by blast
  have part2: "\<exists>q''. push_all vs q = (Inr (), q'') \<and> allocated (trace q'') = allocated (trace q)"
    if "path (memory q) (cache_head q) fs (Some (before_head q))" "length vs \<le> length fs"
    for fs vs
  proof -
    from layout_free_nodes[OF lay that(1)] that(2) have "length vs \<le> length (xs @ ys)" by simp
    from push_all_cached[OF lay this] show ?thesis by blast
  qed
  have part1: "cache_tail q' = (if Some (cache_tail q) = cache_head q then before_head q
                          else cache_tail q) \<and>
         (if Some (cache_tail q') \<noteq> cache_head q
          then \<exists>x n. cache_head q = Some x \<and> memory q x = Some n \<and>
                 allocated (trace q') = allocated (trace q) \<and>
                 (case args of
                    None \<Rightarrow> r = Inl ctor_throw \<and> cache_head q' = cache_head q \<and>
                            memory q' = memory q \<and> trace q' = trace q
                  | Some v \<Rightarrow> r = Inr x \<and> cache_head q' = next n \<and>
                              memory q' = (memory q)(x \<mapsto> \<lparr>data = Some v, next = None\<rparr>) \<and>
                              trace q' = trace q @ [Construct x])
          else avail (alloc q) = 0 \<and> r = Inl bad_alloc \<and> q' = q \<or>
               0 < avail (alloc q) \<and> cache_head q' = cache_head q \<and>
               allocated (trace q') = allocated (trace q) @ [next_addr (alloc q)] \<and>
               (case args of
                  None \<Rightarrow> r = Inl ctor_throw \<and> memory q' = memory q \<and>
                          deallocated (trace q') = deallocated (trace q) @ [next_addr (alloc q)]
                | Some v \<Rightarrow> r = Inr (next_addr (alloc q)) \<and>
                            memory q' = (memory q)(next_addr (alloc q) \<mapsto>
                                           \<lparr>data = Some v, next = None\<rparr>)))"
  proof (cases "xs @ ys")
    case Nil
    then have e: "xs = []" "ys = []" by simp_all
    from lay e have ch: "cache_head q = Some (before_head q)" "cache_tail q = before_head q"
      by (simp_all add: layout_def)
    from make_node_fresh[OF lay[unfolded e], of args] assms(2) ch show ?thesis
      by (cases args; cases "avail (alloc q) = 0") auto
  next
    case (Cons c cs)
    note f = layout_cache_facts[OF lay Cons]
    from f(2) obtain n where n: "memory q c = Some n" "next n = Some (hd (cs @ [before_head q]))"
      by blast
    from f(1,3,4) have ne: "(if Some (cache_tail q) = cache_head q then before_head q
                          else cache_tail q) \<noteq> c"
      by auto
    from make_node_cached[OF lay Cons, of args] assms(2) f(1) n ne show ?thesis
      by (cases args) (auto simp: refill_def)
  qed
  from part1 part2 show ?thesis by blast
qed

lemma push_all_layout:
  "layout q xs ys (before_head q) ls [] \<Longrightarrow> push_all vs q = (Inr (), q1) \<Longrightarrow>
     \<exists>xs' ys' new. layout q1 xs' ys' (before_head q1) (ls @ new) [] \<and>
        map (data_of (memory q1)) (ls @ new) = map (data_of (memory q)) ls @ map Some vs"
proof (induction vs arbitrary: q xs ys ls)
  case Nil
  then show ?case by (intro exI[of _ xs] exI[of _ ys] exI[of _ "[]"]) simp
next
  case (Cons v vs)
  obtain r q0 where em: "emplace (Some v) q = (r, q0)" by (cases "emplace (Some v) q")
  with Cons.prems(2) have r: "r = Inr ()" and pa: "push_all vs q0 = (Inr (), q1)"
    by (auto simp: push_def split: sum.splits)
  from emplace_summary[OF Cons.prems(1) em] r obtain xs' ys' x where
    s: "before_head q0 = before_head q" "layout q0 xs' ys' (before_head q) (ls @ [x]) []"
       "data_of (memory q0) x = Some v" "\<forall>a\<in>set ls. data_of (memory q0) a = data_of (memory q) a"
    by auto
  from s(2) have "layout q0 xs' ys' (before_head q0) (ls @ [x]) []" by (simp add: s(1))
  from Cons.IH[OF this pa] obtain xs2 ys2 new where
    ih: "layout q1 xs2 ys2 (before_head q1) ((ls @ [x]) @ new) []"
        "map (data_of (memory q1)) ((ls @ [x]) @ new) =
           map (data_of (memory q0)) (ls @ [x]) @ map Some vs"
    by blast
  have "map (data_of (memory q0)) (ls @ [x]) = map (data_of (memory q)) ls @ [Some v]"
    using s(3,4) by simp
  with ih show ?case
    by (intro exI[of _ xs2] exI[of _ ys2] exI[of _ "x # new"]) simp
qed

lemma pop_until_empty_layout:
  "layout q xs ys (before_head q) ls [] \<Longrightarrow> map (data_of (memory q)) ls = map Some vs \<Longrightarrow>
     \<exists>q2 xs' ys'. pop_until_empty acc out q = Some (Inr (acc @ vs), last (out # vs), q2) \<and>
        layout q2 xs' ys' (before_head q2) [] []"
proof (induction ls arbitrary: q ys acc out vs)
  case Nil
  from pop_empty[OF Nil(1), of out] Nil show ?case
    by (subst pop_until_empty.simps) auto
next
  case (Cons l ls)
  from Cons.prems(2) obtain v vs' where vs: "vs = v # vs'" and dv: "data_of (memory q) l = Some v"
    and dr: "map (data_of (memory q)) ls = map Some vs'"
    by (cases vs) auto
  from pop_front[OF Cons.prems(1), of out] obtain nl v' q' where
    p: "memory q l = Some nl" "data nl = Some v'"
       "q' = store_before_head l
              (q\<lparr>memory := (memory q)(l \<mapsto> nl\<lparr>data := None\<rparr>), trace := trace q @ [Destroy l]\<rparr>)"
       "pop out q = (Inr True, v', q')"
       "layout q' xs (ys @ [before_head q]) (before_head q') ls []"
    by blast
  from p(1,2) dv have v': "v' = v" by (simp add: data_of_def)
  from Cons.prems(1) have "l \<notin> set ls" by (auto simp: layout_def)
  then have "map (data_of (memory q')) ls = map (data_of (memory q)) ls"
    by (auto simp: p(3) store_before_head_def data_of_def)
  with dr have "map (data_of (memory q')) ls = map Some vs'" by simp
  from Cons.IH[OF p(5) this, of "acc @ [v]" v] obtain q2 xs' ys' where
    "pop_until_empty (acc @ [v]) v q' = Some (Inr ((acc @ [v]) @ vs'), last (v # vs'), q2)"
    "layout q2 xs' ys' (before_head q2) [] []"
    by blast
  with p(4) v' vs show ?case
    by (subst pop_until_empty.simps) auto
qed

text \<open>
  Claim C1. Starting from a reachable, empty queue, if the values \<open>vs\<close> are pushed one
  after the other and every push returns, then popping until \<open>pop\<close> returns false
  terminates and the out-parameter receives exactly \<open>vs\<close>, in order, after which the queue
  is empty again. In particular a single push of \<open>v\<close> followed by a pop yields \<open>v\<close>.
\<close>

theorem fifo_order:
  assumes "reachable q" and "empty q = Inr True" and "push_all vs q = (Inr (), q1)"
  shows "(\<exists>q2. pop_until_empty [] out q1 = Some (Inr vs, last (out # vs), q2) \<and>
               empty q2 = Inr True) \<and>
         (\<forall>v q'. push v q = (Inr (), q') \<longrightarrow> (\<exists>q''. pop out q' = (Inr True, v, q'')))"
proof -
  from reachable_layout[OF assms(1)] obtain xs ys ls where
    lay: "layout q xs ys (before_head q) ls []" by blast
  from layout_head[OF lay] assms(2) have ls: "ls = []" by (cases ls) (simp_all add: empty_def)
  from push_all_layout[OF lay[unfolded ls] assms(3)] obtain xs' ys' new where
    l1: "layout q1 xs' ys' (before_head q1) new []"
    and d1: "map (data_of (memory q1)) new = map Some vs"
    by auto
  from pop_until_empty_layout[OF l1 d1, of "[]" out] obtain q2 xs2 ys2 where
    p: "pop_until_empty [] out q1 = Some (Inr vs, last (out # vs), q2)"
    and l2: "layout q2 xs2 ys2 (before_head q2) [] []"
    by auto
  from layout_head[OF l2] have "empty q2 = Inr True" by (simp add: empty_def)
  with p have part1: "\<exists>q2. pop_until_empty [] out q1 = Some (Inr vs, last (out # vs), q2) \<and>
               empty q2 = Inr True" by blast
  have part2: "\<exists>q''. pop out q' = (Inr True, v, q'')" if "push v q = (Inr (), q')" for v q'
  proof -
    from that have em: "emplace (Some v) q = (Inr (), q')" by (simp add: push_def)
    from emplace_summary[OF lay[unfolded ls] em] obtain xs' ys' x where
      s: "before_head q' = before_head q" "layout q' xs' ys' (before_head q) [x] []"
         "data_of (memory q') x = Some v"
      by auto
    from s(2) have "layout q' xs' ys' (before_head q') [x] []" by (simp add: s(1))
    from pop_front[OF this, of out] s(3) show ?thesis by (auto simp: data_of_def)
  qed
  from part1 part2 show ?thesis by blast
qed

lemma reachable_two_pushed: "reachable two_pushed"
  unfolding two_pushed_def one_pushed_def push_def
  by (intro r_emplace[OF _ surjective_pairing] r_ctor[OF ctor_fresh])

lemma one_popped_state: "one_popped =
     \<lparr>tail = 2, before_head = 1, cache_tail = 0, cache_head = Some 0,
      alloc = \<lparr>next_addr = 3, avail = 1\<rparr>,
      memory = [0 \<mapsto> \<lparr>data = None, next = Some 1\<rparr>, 1 \<mapsto> \<lparr>data = None, next = Some 2\<rparr>,
                2 \<mapsto> \<lparr>data = Some 8, next = None\<rparr>],
      trace = [Allocate 0, Allocate 1, Construct 1, Allocate 2, Construct 2, Destroy 1, StoreBeforeHead 1]\<rparr>"
  by (simp add: one_popped_def one_popped_eq)

lemma reachable_one_popped: "reachable one_popped"
proof -
  have "pop 0 two_pushed = (Inr True, 7, one_popped)"
    by (simp add: one_popped_def one_popped_eq)
  from r_pop[OF reachable_two_pushed this] show ?thesis .
qed

text \<open>
  The theorem at the fresh queue and the values 7, 8: the pops yield 7, 8.
\<close>

theorem fifo_order_witness:
  "reachable fresh_queue \<and> empty fresh_queue = Inr True \<and>
   push_all [7, 8] fresh_queue = (Inr (), two_pushed) \<and>
   (\<exists>q2. pop_until_empty [] 0 two_pushed = Some (Inr [7, 8], 8, q2) \<and> empty q2 = Inr True) \<and>
   push 7 fresh_queue = (Inr (), one_pushed) \<and>
   (\<exists>q''. pop 0 one_pushed = (Inr True, 7, q''))"
proof -
  have r: "reachable fresh_queue" by (rule r_ctor[OF ctor_fresh])
  have e: "empty fresh_queue = Inr True"
    by (simp add: empty_def head_def load_next_def fresh_queue_def)
  have p1: "push 7 fresh_queue = (Inr (), one_pushed)"
    by (simp add: one_pushed_def push_def emplace_def make_node_def fresh_queue_def prim_defs Let_def)
  have p2: "push 8 one_pushed = (Inr (), two_pushed)"
    by (simp add: two_pushed_def one_pushed_eq push_def emplace_def make_node_def prim_defs Let_def)
  from p1 p2 have pa: "push_all [7, 8] fresh_queue = (Inr (), two_pushed)" by simp
  from fifo_order[OF r e pa, of 0] r e pa p1 show ?thesis by simp
qed

text \<open>
  The theorem at the queue after two pushes and a pop: the nodes 0 and 1 are deallocated,
  the node 2 is destroyed and deallocated.
\<close>

theorem dtor_spec_witness:
  "reachable one_popped \<and>
   (\<exists>q'. spsc_queue_dtor one_popped = Some (Inr (), q') \<and>
         trace q' = trace one_popped @ map Deallocate [0, 1] @ release_events [2] \<and>
         memory q' = Map.empty \<and>
         length (allocated (trace q')) = 3 \<and> length (deallocated (trace q')) = 3 \<and>
         length (constructed (trace q')) = 2 \<and> length (destroyed (trace q')) = 2)"
proof -
  have "\<exists>q'. spsc_queue_dtor one_popped = Some (Inr (), q') \<and>
         trace q' = trace one_popped @ map Deallocate [0, 1] @ release_events [2] \<and>
         memory q' = Map.empty \<and>
         length (allocated (trace q')) = 3 \<and> length (deallocated (trace q')) = 3 \<and>
         length (constructed (trace q')) = 2 \<and> length (destroyed (trace q')) = 2"
    by (simp add: one_popped_state spsc_queue_dtor_def dealloc_cached.simps destroy_chain.simps
        prim_defs fun_eq_iff)
  with dtor_spec[OF reachable_one_popped] reachable_one_popped show ?thesis by blast
qed

lemma range_failed_eq:
  "push_range [Some 5, None] one_popped = Some (Inl ctor_throw, range_failed)"
  by (simp add: one_popped_state range_failed_def push_range_def make_node_def
      destroy_chain.simps prim_defs Let_def fun_eq_iff)

text \<open>
  The theorem at the queue after two pushes and a pop, for a range of two elements whose
  second constructor throws: the first element is staged in the cached node 0, the
  allocation for the second is undone, the node 0 is destroyed and deallocated.
\<close>

theorem push_range_throw_witness:
  "reachable one_popped \<and> None \<in> set [Some 5, None] \<and>
   push_range [Some 5, None] one_popped = Some (Inl ctor_throw, range_failed) \<and>
   trace range_failed =
     trace one_popped @ [Construct 0, Allocate 3, Deallocate 3, Destroy 0, Deallocate 0] \<and>
   tail range_failed = tail one_popped \<and> before_head range_failed = before_head one_popped \<and>
   load_next (tail range_failed) range_failed = Inr None \<and>
   memory range_failed 1 = memory one_popped 1 \<and> memory range_failed 2 = memory one_popped 2 \<and>
   memory range_failed 0 = None"
proof -
  have n: "None \<in> set [Some (5::nat), None]" by simp
  from push_range_throw[OF reachable_one_popped n] reachable_one_popped range_failed_eq
  show ?thesis
    by (simp add: one_popped_state range_failed_def load_next_def)
qed

text \<open>
  The theorem at the queue after two pushes and a pop, where the node 0 is recyclable.
\<close>

theorem emplace_throw_cached_witness:
  "reachable one_popped \<and> Some (before_head one_popped) \<noteq> cache_head one_popped \<and>
   emplace None one_popped = (Inl ctor_throw, one_popped\<lparr>cache_tail := 1\<rparr>) \<and>
   cache_head one_popped = Some 0 \<and>
   memory one_popped 0 = Some \<lparr>data = None, next = Some 1\<rparr>"
proof -
  have h: "Some (cache_tail one_popped) \<noteq> cache_head one_popped \<or>
           Some (before_head one_popped) \<noteq> cache_head one_popped"
    by (simp add: one_popped_state)
  from emplace_throw_cached[OF reachable_one_popped h] reachable_one_popped show ?thesis
    by (simp add: one_popped_state)
qed

text \<open>
  The theorem at the queue after two pushes and a pop: one node is free, and one push
  takes it without allocating.
\<close>

theorem node_acquisition_witness:
  "reachable one_popped \<and>
   make_node (Some 9) one_popped =
     (Inr 0, one_popped\<lparr>cache_tail := 1, cache_head := Some 1,
                          memory := (memory one_popped)(0 \<mapsto> \<lparr>data = Some 9, next = None\<rparr>),
                          trace := trace one_popped @ [Construct 0]\<rparr>) \<and>
   path (memory one_popped) (cache_head one_popped) [0] (Some (before_head one_popped)) \<and>
   length [9::nat] \<le> length [0::nat] \<and>
   (\<exists>q''. push_all [9] one_popped = (Inr (), q'') \<and>
          allocated (trace q'') = allocated (trace one_popped))"
proof -
  have m: "make_node (Some 9) one_popped =
     (Inr 0, one_popped\<lparr>cache_tail := 1, cache_head := Some 1,
                          memory := (memory one_popped)(0 \<mapsto> \<lparr>data = Some 9, next = None\<rparr>),
                          trace := trace one_popped @ [Construct 0]\<rparr>)"
    by (simp add: one_popped_state make_node_def prim_defs Let_def)
  have p: "path (memory one_popped) (cache_head one_popped) [0] (Some (before_head one_popped))"
    by (simp add: one_popped_state)
  from node_acquisition[OF reachable_one_popped m] p
  have "\<exists>q''. push_all [9] one_popped = (Inr (), q'') \<and>
          allocated (trace q'') = allocated (trace one_popped)"
    by (metis length_Cons order_refl)
  with reachable_one_popped m p show ?thesis by simp
qed

end
